theory Spec2Isabelle
  imports Main "HOL-Library.Word" "HOL-Library.AList" "HOL-Library.Multiset" "HOL-Library.Sublist"
begin

unbundle bit_operations_syntax

section \<open>fsmonitor: the polling scanner and its dispatch loop\<close>

text \<open>
  The development follows the Go sources: \<^verbatim>\<open>notice.go\<close> (events and notices), the
  path scanner (\<^verbatim>\<open>pathScanner.Watch\<close>, whose worker body is the same code as
  \<^verbatim>\<open>Monitor.scan\<close> of the earlier revision with \<^verbatim>\<open>m.lastCheckpoint\<close> in the place of
  \<^verbatim>\<open>s.lastCheck\<close>) and \<^verbatim>\<open>monitor.go\<close> (\<^verbatim>\<open>New\<close>, \<^verbatim>\<open>Start\<close>, \<^verbatim>\<open>Stop\<close>).
\<close>

subsection \<open>Values of the Go runtime\<close>

text \<open>
  An \<^verbatim>\<open>error\<close> value is its message; \<^verbatim>\<open>nil\<close> is \<open>None\<close> of \<open>go_error option\<close>.
  A \<^verbatim>\<open>time.Time\<close> is an instant on the integer line, \<^verbatim>\<open>After\<close> is \<open>>\<close>.
  A run of the program can end abnormally: a nil dereference, a slice expression out of
  bounds, a send on a closed channel, closing a closed channel (all four are Go panics) or
  \<^verbatim>\<open>Logger.Fatalln\<close>, which exits the process.
\<close>

type_synonym go_error = string
type_synonym time = int
type_synonym int64 = "64 word"

datatype fault =
  NilPointerDereference | SliceBoundsOutOfRange | SendOnClosedChannel | CloseOfClosedChannel
  | FatalExit

text \<open>The part of \<^verbatim>\<open>os.FileInfo\<close> that the scanner reads.\<close>

record FileInfo =
  IsDir :: bool
  ModTime :: time
  Size :: int64

subsection \<open>notice.go\<close>

type_synonym Event = "32 word"

definition FileCreate :: Event where "FileCreate = push_bit 0 1"
definition FileUpdate :: Event where "FileUpdate = push_bit 1 1"
definition FileRemove :: Event where "FileRemove = push_bit 2 1"
definition FileRename :: Event where "FileRename = push_bit 3 1"

record fileSystemNotice =
  path :: string
  event :: Event
  fileinfo :: FileInfo
  timestamp :: time

definition Name :: "fileSystemNotice \<Rightarrow> string" where "Name f = path f"
definition Type :: "fileSystemNotice \<Rightarrow> Event" where "Type f = event f"
definition More :: "fileSystemNotice \<Rightarrow> FileInfo" where "More f = fileinfo f"
definition Time :: "fileSystemNotice \<Rightarrow> time" where "Time f = timestamp f"

subsection \<open>Compiled patterns\<close>

text \<open>
  A \<^verbatim>\<open>regexp.Regexp\<close> is either the zero value of the struct (what \<^verbatim>\<open>make\<close> fills a
  slice with) or a compiled expression, kept as the predicate "the expression matches
  somewhere in the string". \<^verbatim>\<open>FindStringIndex\<close> is read only through \<^verbatim>\<open>!= nil\<close>, so it
  returns that truth value; on the zero value the matcher has no capture slots to slice
  and the call panics (slice bounds out of range).
\<close>

datatype Regexp = ZeroRegexp | Compiled "string \<Rightarrow> bool"

fun FindStringIndex :: "Regexp \<Rightarrow> string \<Rightarrow> fault + bool" where
  "FindStringIndex ZeroRegexp file = Inl SliceBoundsOutOfRange"
| "FindStringIndex (Compiled matches) file = Inr (matches file)"

subsection \<open>The path scanner\<close>

text \<open>
  A Go map is an association list with distinct keys: \<open>map_of\<close> is the lookup,
  \<open>AList.update\<close> the store, \<open>length\<close> is \<^verbatim>\<open>len\<close>. The nil map is \<open>None\<close>; looking a key
  up in it finds nothing and its \<^verbatim>\<open>len\<close> is 0.
\<close>

type_synonym snapshot = "(string \<times> FileInfo) list"

record pathScanner =
  address :: string
  pattern :: "Regexp list"
  lastCheck :: "snapshot option"

definition lookup :: "snapshot option \<Rightarrow> string \<Rightarrow> FileInfo option" where
  "lookup m file = (case m of None \<Rightarrow> None | Some al \<Rightarrow> map_of al file)"

definition len :: "snapshot option \<Rightarrow> int" where
  "len m = (case m of None \<Rightarrow> 0 | Some al \<Rightarrow> int (length al))"

text \<open>
  The locals of one pass of the worker's loop: \<^verbatim>\<open>visited\<close>, \<^verbatim>\<open>created\<close> and the notices sent
  on \<^verbatim>\<open>changed\<close> so far, oldest first. \<^verbatim>\<open>time.Now()\<close> is read once for each notice: \<open>now k\<close>
  is the reading taken for the notice that has \<open>k\<close> notices before it in the cycle.
\<close>

record cycle =
  visited :: snapshot
  created :: int
  changed :: "fileSystemNotice list"

definition send :: "(nat \<Rightarrow> time) \<Rightarrow> string \<Rightarrow> FileInfo \<Rightarrow> Event \<Rightarrow> cycle \<Rightarrow> cycle" where
  "send now file info ev c =
     c\<lparr>changed := changed c @
          [\<lparr>path = file, event = ev, fileinfo = info, timestamp = now (length (changed c))\<rparr>]\<rparr>"

text \<open>The loop over \<^verbatim>\<open>s.pattern\<close>, with its \<^verbatim>\<open>break\<close> at the first match.\<close>

fun match_loop :: "Regexp list \<Rightarrow> string \<Rightarrow> bool \<Rightarrow> fault + bool" where
  "match_loop [] file matched = Inr matched"
| "match_loop (re # res) file matched =
     (case FindStringIndex re file of
        Inl f \<Rightarrow> Inl f
      | Inr found \<Rightarrow> if found then Inr True else match_loop res file matched)"

text \<open>
  The function handed to \<^verbatim>\<open>filepath.Walk\<close>. It returns the \<^verbatim>\<open>err\<close> it was given on every
  path; \<^verbatim>\<open>info\<close> is nil when \<^verbatim>\<open>Lstat\<close> failed, and \<^verbatim>\<open>info.IsDir()\<close> panics then.
\<close>

definition walkFn ::
  "pathScanner \<Rightarrow> (nat \<Rightarrow> time) \<Rightarrow> cycle \<Rightarrow> string \<Rightarrow> FileInfo option \<Rightarrow> go_error option
     \<Rightarrow> fault + (cycle \<times> go_error option)" where
  "walkFn s now c file info err =
     (case info of
        None \<Rightarrow> Inl NilPointerDereference
      | Some i \<Rightarrow>
          if IsDir i then Inr (c, err)
          else
            (case match_loop (pattern s) file (length (pattern s) = 0) of
               Inl f \<Rightarrow> Inl f
             | Inr matched \<Rightarrow>
                 if \<not> matched then Inr (c, err)
                 else
                   let c' =
                     (case lookup (lastCheck s) file of
                        Some oldinfo \<Rightarrow>
                          if ModTime i > ModTime oldinfo then send now file i FileUpdate c
                          else if Size oldinfo \<noteq> Size i then send now file i FileUpdate c
                          else c
                      | None \<Rightarrow>
                          if lastCheck s \<noteq> None
                          then (send now file i FileCreate c)\<lparr>created := created c + 1\<rparr>
                          else c)
                   in Inr (c'\<lparr>visited := AList.update file i (visited c')\<rparr>, err)))"

text \<open>
  \<^verbatim>\<open>filepath.Walk\<close> belongs to the Go library. A traversal is the list of calls
  \<open>(file, info, err)\<close> that it makes in lexical order while the function keeps returning
  nil; it stops and returns the first non-nil result of the function. The errors it passes
  are those of \<^verbatim>\<open>Lstat\<close> and of reading a directory, never \<^verbatim>\<open>SkipDir\<close>.
\<close>

type_synonym visit = "string \<times> FileInfo option \<times> go_error option"

fun Walk ::
  "(cycle \<Rightarrow> string \<Rightarrow> FileInfo option \<Rightarrow> go_error option \<Rightarrow> fault + (cycle \<times> go_error option))
     \<Rightarrow> visit list \<Rightarrow> cycle \<Rightarrow> fault + (cycle \<times> go_error option)" where
  "Walk fn [] c = Inr (c, None)"
| "Walk fn ((file, info, err) # tree) c =
     (case fn c file info err of
        Inl f \<Rightarrow> Inl f
      | Inr (c', r) \<Rightarrow> (case r of Some e \<Rightarrow> Inr (c', Some e) | None \<Rightarrow> Walk fn tree c'))"

text \<open>
  The second pass, \<^verbatim>\<open>for file, info := range s.lastCheck\<close>. Go leaves the order of a
  \<^verbatim>\<open>range\<close> over a map open: \<open>order\<close> is the order in which this pass meets the entries.
\<close>

fun remove_pass :: "(nat \<Rightarrow> time) \<Rightarrow> snapshot \<Rightarrow> cycle \<Rightarrow> cycle" where
  "remove_pass now [] c = c"
| "remove_pass now ((file, info) # order) c =
     remove_pass now order
       (if map_of (visited c) file = None then send now file info FileRemove c else c)"

text \<open>
  One pass of \<^verbatim>\<open>for changed := range ncc\<close>: the notices sent on \<^verbatim>\<open>changed\<close>, the scanner
  with \<^verbatim>\<open>s.lastCheck = visited\<close> and the value sent on \<^verbatim>\<open>errors\<close>.
\<close>

definition scan ::
  "pathScanner \<Rightarrow> (nat \<Rightarrow> time) \<Rightarrow> visit list \<Rightarrow> snapshot
     \<Rightarrow> fault + (pathScanner \<times> fileSystemNotice list \<times> go_error option)" where
  "scan s now tree order =
     (case Walk (walkFn s now) tree \<lparr>visited = [], created = 0, changed = []\<rparr> of
        Inl f \<Rightarrow> Inl f
      | Inr (c, err) \<Rightarrow>
          let c' = (if lastCheck s \<noteq> None \<and> len (lastCheck s) > int (length (visited c)) - created c
                    then remove_pass now order c else c)
          in Inr (s\<lparr>lastCheck := Some (visited c')\<rparr>, changed c', err))"


subsection \<open>monitor.go: New\<close>

text \<open>
  \<^verbatim>\<open>regexp.Compile\<close> is a parameter: it gives an error or the matching predicate of the
  compiled expression. \<^verbatim>\<open>New\<close> makes \<^verbatim>\<open>patexp\<close> with \<^verbatim>\<open>make([]regexp.Regexp, len(pattern),
  len(pattern))\<close>, a slice that already holds \<^verbatim>\<open>len(pattern)\<close> zero values, and appends each
  compiled expression to it. \<^verbatim>\<open>Logger.Fatalln\<close> ends the process.
\<close>

type_synonym compiler = "string \<Rightarrow> go_error + (string \<Rightarrow> bool)"

fun compile_loop :: "compiler \<Rightarrow> string list \<Rightarrow> Regexp list \<Rightarrow> fault + Regexp list" where
  "compile_loop Compile [] patexp = Inr patexp"
| "compile_loop Compile (pat # pats) patexp =
     (case Compile pat of
        Inl err \<Rightarrow> Inl FatalExit
      | Inr exp \<Rightarrow> compile_loop Compile pats (patexp @ [Compiled exp]))"

text \<open>
  The \<^verbatim>\<open>watcher interface{}\<close> argument is a string naming a built-in scanner, a value that
  implements \<^verbatim>\<open>Watcher\<close>, or anything else. \<^verbatim>\<open>fileScanner\<close> has the fields of
  \<^verbatim>\<open>pathScanner\<close>. A \<^verbatim>\<open>Monitor\<close> is identified with its watcher; its two channels are
  part of the running pipeline below.
\<close>

datatype 'w watcher_arg = ByName string | Implementation 'w | Unrecognized

datatype 'w Watcher = PathScanner pathScanner | FileScanner pathScanner | Custom 'w

definition New :: "compiler \<Rightarrow> string \<Rightarrow> string list \<Rightarrow> 'w watcher_arg \<Rightarrow> fault + 'w Watcher" where
  "New Compile addr pats watcher =
     (case compile_loop Compile pats (replicate (length pats) ZeroRegexp) of
        Inl f \<Rightarrow> Inl f
      | Inr patexp \<Rightarrow>
          (case watcher of
             Unrecognized \<Rightarrow> Inl FatalExit
           | ByName tw \<Rightarrow>
               if tw = ''path''
               then Inr (PathScanner \<lparr>address = addr, pattern = patexp, lastCheck = None\<rparr>)
               else if tw = ''file''
               then Inr (FileScanner \<lparr>address = addr, pattern = patexp, lastCheck = None\<rparr>)
               else Inl FatalExit
           | Implementation tw \<Rightarrow> Inr (Custom tw)))"

text \<open>
  \<^verbatim>\<open>Monitor.Watch\<close> of the earlier revision compiles the same list into
  \<^verbatim>\<open>make([]regexp.Regexp, 0)\<close>.
\<close>

definition Watch_patexp :: "compiler \<Rightarrow> string list \<Rightarrow> fault + Regexp list" where
  "Watch_patexp Compile pats = compile_loop Compile pats []"

text \<open>
  The pattern of the README's use, \<^verbatim>\<open>\.log$\<close>, and \<^verbatim>\<open>regexp.Compile\<close> on it: the
  expression matches the strings that end in \<^verbatim>\<open>.log\<close>. Other patterns are outside this
  compiler.
\<close>

definition log_pattern :: string where
  "log_pattern = CHR 0x5C # ''.log$''"

definition Compile_log :: compiler where
  "Compile_log pat = (if pat = log_pattern then Inr (suffix ''.log'') else Inl ''unsupported'')"

subsection \<open>monitor.go: Start and Stop\<close>

definition notice_buffer_length :: nat where
  "notice_buffer_length = 1000"

text \<open>
  The body of \<^verbatim>\<open>case n := <-noticeBuffer\<close>: the sends on \<^verbatim>\<open>m.notices\<close> for one notice,
  the reader of \<^verbatim>\<open>Notices()\<close> taking each.
\<close>

fun deliver :: "Event list \<Rightarrow> fileSystemNotice \<Rightarrow> fileSystemNotice list" where
  "deliver [] n = []"
| "deliver (e # es) n = (if e = Type n then [n] else []) @ deliver es n"

text \<open>
  The pipeline is the dispatch loop of \<^verbatim>\<open>Start\<close>, the worker goroutine of
  \<^verbatim>\<open>pathScanner.Watch\<close> and one caller of \<^verbatim>\<open>Stop\<close>, interleaved. Each goroutine is at a
  location; a step is one communication or one local action.
  \<^item> \<open>timeTick\<close>: nil, \<^verbatim>\<open>time.Tick(sleep)\<close> or \<^verbatim>\<open>time.After\<close> of the 100 seconds.
  \<^item> The loop is at its \<^verbatim>\<open>select\<close>, at \<^verbatim>\<open>ncc<-noticeBuffer\<close>, at \<^verbatim>\<open>returning <- nil\<close>, or
    has returned.
  \<^item> The worker is at \<^verbatim>\<open>range ncc\<close>, about to walk, sending the notices of a finished walk on
    \<^verbatim>\<open>changed\<close> (the scanner and status that follow are kept with them), at
    \<^verbatim>\<open>errors <- err\<close>, or has left the loop and closed \<^verbatim>\<open>errors\<close>.
  \<^item> The caller of \<^verbatim>\<open>Stop\<close> has not called, is at \<^verbatim>\<open>m.closing <- stopper\<close>, at
    \<^verbatim>\<open><-stopper\<close>, holds the received value, or has returned \<^verbatim>\<open>err\<close>.
  \<open>requests\<close> and \<open>statuses\<close> are history: the number of buffers the worker has received
  from \<^verbatim>\<open>ncc\<close> and the values the loop has received from \<^verbatim>\<open>errorCheck\<close>, oldest first.
  No step reads them.
\<close>

datatype timer = NoTimer | Ticking | Cooldown

datatype loop_at = Select | SendRequest | Release | Returned

datatype worker_at =
  Receive | Walking | Emitting "fileSystemNotice list" pathScanner "go_error option"
  | Report "go_error option" | Exited

datatype stop_at = NotCalled | Requesting | Waiting | Got "go_error option" | Stopped "go_error option"

record pipeline =
  events :: "Event list"
  loop :: loop_at
  timeTick :: timer
  returning :: bool
  noticeBuffer :: "fileSystemNotice list"
  noticeBuffer_closed :: bool
  ncc_closed :: bool
  errors_closed :: bool
  notices :: "fileSystemNotice list"
  notices_closed :: bool
  worker :: worker_at
  scanner :: pathScanner
  stop :: stop_at
  crashed :: "fault option"
  requests :: nat
  statuses :: "go_error option list"

text \<open>\<^verbatim>\<open>Start\<close> up to its \<^verbatim>\<open>for\<close>, on a monitor whose watcher is the path scanner \<open>sc\<close>.\<close>

definition Start :: "pathScanner \<Rightarrow> Event list \<Rightarrow> pipeline" where
  "Start sc evs =
     \<lparr>events = evs, loop = Select, timeTick = Ticking, returning = False,
      noticeBuffer = [], noticeBuffer_closed = False, ncc_closed = False,
      errors_closed = False, notices = [], notices_closed = False,
      worker = Receive, scanner = sc, stop = NotCalled, crashed = None,
      requests = 0, statuses = []\<rparr>"

text \<open>
  The steps. \<open>Tick\<close>: the timer case of the \<^verbatim>\<open>select\<close>. \<open>Hand\<close>: \<^verbatim>\<open>ncc<-noticeBuffer\<close> meets
  \<^verbatim>\<open>range ncc\<close>, or panics on the closed \<^verbatim>\<open>ncc\<close>. \<open>Scan\<close>: the worker walks the tree it finds
  (with the order of its \<^verbatim>\<open>range s.lastCheck\<close> and the clock). \<open>Emit\<close>: one send on the
  buffered \<^verbatim>\<open>changed\<close>. \<open>Install\<close>: \<^verbatim>\<open>s.lastCheck = visited\<close>. \<open>Status\<close>: \<^verbatim>\<open>errors <- err\<close> meets
  \<^verbatim>\<open>case err, ok := <-errorCheck\<close>. \<open>Drain\<close>: \<^verbatim>\<open>case n := <-noticeBuffer\<close>. \<open>CallStop\<close>,
  \<open>Closing\<close>: \<^verbatim>\<open>Stop\<close> is called and \<^verbatim>\<open>m.closing <- stopper\<close> meets the loop.
  \<open>WorkerExit\<close>: \<^verbatim>\<open>range ncc\<close> ends and the deferred \<^verbatim>\<open>close(errors)\<close> runs. \<open>Shutdown\<close>: the
  \<^verbatim>\<open>!ok\<close> branch up to \<^verbatim>\<open>close(noticeBuffer)\<close>. \<open>Unblock\<close>: \<^verbatim>\<open>returning <- nil\<close> meets
  \<^verbatim>\<open><-stopper\<close>. \<open>StopReturn\<close>: the rest of \<^verbatim>\<open>Stop\<close>. A panic or \<^verbatim>\<open>Fatalln\<close> ends the
  program: nothing steps after it, and the notices that a panicking walk had sent are not
  kept. The reader of \<^verbatim>\<open>Notices()\<close> takes what the loop sends.
\<close>

datatype action =
  Tick | Hand | Scan "visit list" snapshot "nat \<Rightarrow> time" | Emit | Install | Status | Drain
  | CallStop | Closing | WorkerExit | Shutdown | Unblock | StopReturn

definition range_of :: "snapshot option \<Rightarrow> snapshot \<Rightarrow> bool" where
  "range_of m order = (case m of None \<Rightarrow> order = [] | Some al \<Rightarrow> mset order = mset al)"

fun step :: "pipeline \<Rightarrow> action \<Rightarrow> pipeline option" where
  "step p Tick =
     (if crashed p = None \<and> loop p = Select \<and> timeTick p \<noteq> NoTimer
      then Some (p\<lparr>timeTick := NoTimer, loop := SendRequest\<rparr>) else None)"
| "step p Hand =
     (if crashed p = None \<and> loop p = SendRequest
      then (if ncc_closed p then Some (p\<lparr>crashed := Some SendOnClosedChannel\<rparr>)
            else if worker p = Receive
            then Some (p\<lparr>loop := Select, worker := Walking, requests := requests p + 1\<rparr>)
            else None)
      else None)"
| "step p (Scan tree order now) =
     (if crashed p = None \<and> worker p = Walking \<and> range_of (lastCheck (scanner p)) order
      then (case scan (scanner p) now tree order of
              Inl f \<Rightarrow> Some (p\<lparr>crashed := Some f\<rparr>)
            | Inr (sc, ns, err) \<Rightarrow> Some (p\<lparr>worker := Emitting ns sc err\<rparr>))
      else None)"
| "step p Emit =
     (if crashed p = None
      then (case worker p of
              Emitting (n # ns) sc err \<Rightarrow>
                if length (noticeBuffer p) < notice_buffer_length
                then Some (p\<lparr>noticeBuffer := noticeBuffer p @ [n], worker := Emitting ns sc err\<rparr>)
                else None
            | _ \<Rightarrow> None)
      else None)"
| "step p Install =
     (if crashed p = None
      then (case worker p of
              Emitting [] sc err \<Rightarrow> Some (p\<lparr>scanner := sc, worker := Report err\<rparr>)
            | _ \<Rightarrow> None)
      else None)"
| "step p Status =
     (if crashed p = None \<and> loop p = Select
      then (case worker p of
              Report err \<Rightarrow>
                Some (p\<lparr>worker := Receive, statuses := statuses p @ [err],
                        timeTick := (if err \<noteq> None then Cooldown else Ticking)\<rparr>)
            | _ \<Rightarrow> None)
      else None)"
| "step p Drain =
     (if crashed p = None \<and> loop p = Select
      then (case noticeBuffer p of
              n # rest \<Rightarrow>
                Some (p\<lparr>noticeBuffer := rest, notices := notices p @ deliver (events p) n\<rparr>)
            | [] \<Rightarrow> None)
      else None)"
| "step p CallStop =
     (if crashed p = None \<and> stop p = NotCalled then Some (p\<lparr>stop := Requesting\<rparr>) else None)"
| "step p Closing =
     (if crashed p = None \<and> loop p = Select \<and> stop p = Requesting
      then (if ncc_closed p
            then Some (p\<lparr>returning := True, stop := Waiting, crashed := Some CloseOfClosedChannel\<rparr>)
            else Some (p\<lparr>returning := True, stop := Waiting, ncc_closed := True\<rparr>))
      else None)"
| "step p WorkerExit =
     (if crashed p = None \<and> worker p = Receive \<and> ncc_closed p
      then Some (p\<lparr>worker := Exited, errors_closed := True\<rparr>) else None)"
| "step p Shutdown =
     (if crashed p = None \<and> loop p = Select \<and> errors_closed p
      then Some (p\<lparr>noticeBuffer := (case noticeBuffer p of [] \<Rightarrow> [] | n # rest \<Rightarrow> rest),
                   noticeBuffer_closed := True, loop := Release\<rparr>)
      else None)"
| "step p Unblock =
     (if crashed p = None \<and> loop p = Release \<and> returning p \<and> stop p = Waiting
      then Some (p\<lparr>loop := Returned, stop := Got None\<rparr>) else None)"
| "step p StopReturn =
     (if crashed p = None
      then (case stop p of
              Got e \<Rightarrow>
                (case e of
                   Some x \<Rightarrow> Some (p\<lparr>crashed := Some FatalExit\<rparr>)
                 | None \<Rightarrow> Some (p\<lparr>notices_closed := True, stop := Stopped None\<rparr>))
            | _ \<Rightarrow> None)
      else None)"

fun run :: "pipeline \<Rightarrow> action list \<Rightarrow> pipeline option" where
  "run p [] = Some p"
| "run p (a # as) = (case step p a of None \<Rightarrow> None | Some p' \<Rightarrow> run p' as)"

subsection \<open>Vocabulary of the properties\<close>

text \<open>What a notice says, its timestamp apart.\<close>

definition untimed :: "fileSystemNotice \<Rightarrow> string \<times> Event \<times> FileInfo" where
  "untimed n = (path n, event n, fileinfo n)"

text \<open>
  The calls that \<^verbatim>\<open>Walk\<close> makes on a traversal: up to and with the first that carries an
  error. A call is selected when it is for a file, not a directory, that the patterns
  match. \<open>items\<close> are the selected calls of a cycle, in the order of the traversal.
\<close>

fun presented :: "visit list \<Rightarrow> visit list" where
  "presented [] = []"
| "presented ((file, info, err) # tree) =
     (file, info, err) # (if err = None then presented tree else [])"

definition selected :: "pathScanner \<Rightarrow> visit \<Rightarrow> bool" where
  "selected s v = (case v of (file, info, err) \<Rightarrow>
     (case info of
        None \<Rightarrow> False
      | Some i \<Rightarrow> \<not> IsDir i \<and> match_loop (pattern s) file (length (pattern s) = 0) = Inr True))"

definition items :: "pathScanner \<Rightarrow> visit list \<Rightarrow> snapshot" where
  "items s tree =
     map (\<lambda>(file, info, err). (file, the info)) (filter (selected s) (presented tree))"

text \<open>What the first pass says about one item, and what the second pass says.\<close>

definition forward :: "pathScanner \<Rightarrow> string \<times> FileInfo \<Rightarrow> (string \<times> Event \<times> FileInfo) list" where
  "forward s p = (case p of (file, i) \<Rightarrow>
     (case lookup (lastCheck s) file of
        Some oldinfo \<Rightarrow>
          if ModTime i > ModTime oldinfo \<or> Size oldinfo \<noteq> Size i
          then [(file, FileUpdate, i)] else []
      | None \<Rightarrow> if lastCheck s \<noteq> None then [(file, FileCreate, i)] else []))"

definition removals :: "snapshot \<Rightarrow> snapshot \<Rightarrow> (string \<times> Event \<times> FileInfo) list" where
  "removals order cur =
     map (\<lambda>(file, i). (file, FileRemove, i))
       (filter (\<lambda>(file, i). map_of cur file = None) order)"

text \<open>The invariant of the pipeline that the serialisation of cycles rests on.\<close>

definition busy :: "worker_at \<Rightarrow> bool" where
  "busy w = (case w of Receive \<Rightarrow> False | Exited \<Rightarrow> False | _ \<Rightarrow> True)"

definition serial :: "pipeline \<Rightarrow> bool" where
  "serial p =
     ((busy (worker p) \<longrightarrow>
         requests p = Suc (length (statuses p)) \<and> timeTick p = NoTimer \<and> loop p = Select)
      \<and> (\<not> busy (worker p) \<longrightarrow> requests p = length (statuses p))
      \<and> (loop p = SendRequest \<longrightarrow> timeTick p = NoTimer)
      \<and> (errors_closed p \<longrightarrow> worker p = Exited)
      \<and> (loop p = Release \<or> loop p = Returned \<longrightarrow> worker p = Exited))"

text \<open>The invariant that the release of the caller of \<^verbatim>\<open>Stop\<close> rests on.\<close>

definition released :: "pipeline \<Rightarrow> bool" where
  "released p =
     ((errors_closed p \<longrightarrow> worker p = Exited)
      \<and> (worker p = Exited \<longrightarrow> ncc_closed p)
      \<and> (ncc_closed p \<longrightarrow> returning p \<and> stop p \<noteq> NotCalled \<and> stop p \<noteq> Requesting)
      \<and> (loop p = Release \<or> loop p = Returned \<longrightarrow> errors_closed p \<and> noticeBuffer_closed p)
      \<and> (case stop p of
            NotCalled \<Rightarrow> True
          | Requesting \<Rightarrow> True
          | Waiting \<Rightarrow> loop p \<noteq> Returned
          | Got e \<Rightarrow> e = None \<and> loop p = Returned
          | Stopped e \<Rightarrow> e = None \<and> loop p = Returned \<and> notices_closed p))"

section \<open>Properties\<close>

subsection \<open>One pass of the worker\<close>

lemma untimed_send: "map untimed (changed (send now file i ev c)) = map untimed (changed c) @ [(file, ev, i)]"
  by (simp add: send_def untimed_def)

lemma visited_send [simp]: "visited (send now file i ev c) = visited c"
  by (simp add: send_def)

lemma created_send [simp]: "created (send now file i ev c) = created c"
  by (simp add: send_def)

lemma walkFn_Inr:
  assumes "walkFn s now c file info err = Inr (c', r)"
  shows "r = err"
    and "info \<noteq> None"
    and "selected s (file, info, err) \<Longrightarrow>
           visited c' = AList.update file (the info) (visited c) \<and>
           map untimed (changed c') = map untimed (changed c) @ forward s (file, the info) \<and>
           created c' = created c + (if lastCheck s \<noteq> None \<and> lookup (lastCheck s) file = None then 1 else 0)"
    and "\<not> selected s (file, info, err) \<Longrightarrow> c' = c"
  using assms
  by (auto simp: walkFn_def selected_def forward_def untimed_send Let_def
      split: option.splits sum.splits if_splits)


lemma items_Nil [simp]: "items s [] = []"
  by (simp add: items_def)

lemma items_Cons:
  "items s ((file, info, err) # tree) =
     (if selected s (file, info, err) then [(file, the info)] else []) @
     (if err = None then items s tree else [])"
  by (auto simp: items_def)

lemma Walk_visited:
  "Walk (walkFn s now) tree c = Inr (c', st) \<Longrightarrow>
   visited c' = fold (\<lambda>(file, i). AList.update file i) (items s tree) (visited c)"
proof (induction tree arbitrary: c)
  case Nil
  then show ?case by simp
next
  case (Cons v tree)
  obtain fl info err where v: "v = (fl, info, err)" by (cases v)
  from Cons.prems v obtain c1 r where
    w: "walkFn s now c fl info err = Inr (c1, r)"
    by (auto split: sum.splits)
  note f = walkFn_Inr [OF w]
  show ?case
  proof (cases err)
    case None
    with Cons.prems v w f(1) have "Walk (walkFn s now) tree c1 = Inr (c', st)" by simp
    from Cons.IH [OF this] f(3,4) None v show ?thesis
      by (cases "selected s (fl, info, err)") (simp_all add: items_Cons)
  next
    case (Some e)
    with Cons.prems v w f(1) have "c' = c1" by simp
    with f(3,4) Some v show ?thesis
      by (cases "selected s (fl, info, err)") (simp_all add: items_Cons)
  qed
qed

lemma Walk_changed:
  "Walk (walkFn s now) tree c = Inr (c', st) \<Longrightarrow>
   map untimed (changed c') = map untimed (changed c) @ concat (map (forward s) (items s tree))"
proof (induction tree arbitrary: c)
  case Nil
  then show ?case by simp
next
  case (Cons v tree)
  obtain fl info err where v: "v = (fl, info, err)" by (cases v)
  from Cons.prems v obtain c1 r where
    w: "walkFn s now c fl info err = Inr (c1, r)"
    by (auto split: sum.splits)
  note f = walkFn_Inr [OF w]
  show ?case
  proof (cases err)
    case None
    with Cons.prems v w f(1) have "Walk (walkFn s now) tree c1 = Inr (c', st)" by simp
    from Cons.IH [OF this] f(3,4) None v show ?thesis
      by (cases "selected s (fl, info, err)") (simp_all add: items_Cons)
  next
    case (Some e)
    with Cons.prems v w f(1) have "c' = c1" by simp
    with f(3,4) Some v show ?thesis
      by (cases "selected s (fl, info, err)") (simp_all add: items_Cons)
  qed
qed

lemma Walk_created:
  "Walk (walkFn s now) tree c = Inr (c', st) \<Longrightarrow> lastCheck s \<noteq> None \<Longrightarrow>
   created c' = created c + int (length (filter (\<lambda>(file, i). lookup (lastCheck s) file = None) (items s tree)))"
proof (induction tree arbitrary: c)
  case Nil
  then show ?case by simp
next
  case (Cons v tree)
  obtain fl info err where v: "v = (fl, info, err)" by (cases v)
  from Cons.prems v obtain c1 r where
    w: "walkFn s now c fl info err = Inr (c1, r)"
    by (auto split: sum.splits)
  note f = walkFn_Inr [OF w]
  show ?case
  proof (cases err)
    case None
    with Cons.prems v w f(1) have "Walk (walkFn s now) tree c1 = Inr (c', st)" by simp
    from Cons.IH [OF this Cons.prems(2)] f(3,4) None v Cons.prems(2) show ?thesis
      by (cases "selected s (fl, info, err)") (simp_all add: items_Cons)
  next
    case (Some e)
    with Cons.prems v w f(1) have "c' = c1" by simp
    with f(3,4) Some v Cons.prems(2) show ?thesis
      by (cases "selected s (fl, info, err)") (simp_all add: items_Cons)
  qed
qed


lemma visited_remove_pass [simp]: "visited (remove_pass now order c) = visited c"
  by (induction now order c rule: remove_pass.induct) simp_all

lemma changed_remove_pass:
  "map untimed (changed (remove_pass now order c)) =
     map untimed (changed c) @ removals order (visited c)"
  by (induction now order c rule: remove_pass.induct) (simp_all add: removals_def untimed_send)

lemma keys_fold_update:
  "fst ` set (fold (\<lambda>(file, i). AList.update file i) xs al) = fst ` set xs \<union> fst ` set al"
proof (induction xs arbitrary: al)
  case Nil
  then show ?case by simp
next
  case (Cons x xs)
  obtain f i where x: "x = (f, i)" by (cases x)
  have "fst ` set (fold (\<lambda>(file, i). AList.update file i) (x # xs) al) =
          fst ` set xs \<union> fst ` set (AList.update f i al)"
    using Cons.IH x by simp
  also have "\<dots> = fst ` set xs \<union> ({f} \<union> fst ` set al)"
    by (simp only: dom_update)
  finally show ?case using x by auto
qed

lemma distinct_fold_update:
  "distinct (map fst al) \<Longrightarrow> distinct (map fst (fold (\<lambda>(file, i). AList.update file i) xs al))"
  by (induction xs arbitrary: al) (auto simp: distinct_update)

lemma map_of_fold_update:
  "distinct (map fst xs) \<Longrightarrow>
   map_of (fold (\<lambda>(file, i). AList.update file i) xs al) k =
     (case map_of xs k of Some i \<Rightarrow> Some i | None \<Rightarrow> map_of al k)"
proof (induction xs arbitrary: al)
  case Nil
  then show ?case by simp
next
  case (Cons x xs)
  obtain f i where x: "x = (f, i)" by (cases x)
  from Cons.prems x have d: "distinct (map fst xs)" and n: "f \<notin> fst ` set xs" by auto
  from n have m: "map_of xs f = None" by (simp add: map_of_eq_None_iff)
  show ?case using Cons.IH [OF d, of "AList.update f i al"] x m
    by (auto simp: update_conv' split: option.splits)
qed

lemma guard_bound:
  fixes I P :: snapshot
  assumes "distinct (map fst V)" and "fst ` set V = fst ` set I"
  shows "int (length V) - int (length (filter (\<lambda>(file, i). map_of P file = None) I))
           \<le> int (card (fst ` set I \<inter> fst ` set P))"
proof -
  let ?F = "filter (\<lambda>(file, i). map_of P file = None) I"
  have lv: "length V = card (fst ` set I)"
    using assms by (metis distinct_card length_map set_map)
  have sub: "fst ` set I - fst ` set P \<subseteq> fst ` set ?F"
    by (auto simp: map_of_eq_None_iff image_iff)
  have "card (fst ` set I - fst ` set P) \<le> card (fst ` set ?F)"
    by (rule card_mono [OF _ sub]) simp
  also have "\<dots> \<le> length ?F"
    by (metis card_length length_map set_map)
  finally have a: "card (fst ` set I - fst ` set P) \<le> length ?F" .
  have "card (fst ` set I) = card (fst ` set I \<inter> fst ` set P) + card (fst ` set I - fst ` set P)"
    by (metis List.finite_set card_Int_Diff finite_imageI)
  with lv a show ?thesis by linarith
qed


lemma scan_first:
  assumes sc: "scan s now tree order = Inr (s', ns, st)" and nil: "lastCheck s = None"
  shows "ns = []"
proof -
  from sc nil obtain c where
    w: "Walk (walkFn s now) tree \<lparr>visited = [], created = 0, changed = []\<rparr> = Inr (c, st)"
    and n: "ns = changed c"
    by (auto simp: scan_def Let_def split: sum.splits)
  have "concat (map (forward s) (items s tree)) = []"
    using nil by (auto simp: forward_def lookup_def)
  with Walk_changed [OF w] n show ?thesis by simp
qed

lemma scan_notices:
  assumes sc: "scan s now tree order = Inr (s', ns, st)"
    and prev: "lastCheck s = Some prev" and dp: "distinct (map fst prev)"
    and ord: "mset order = mset prev"
    and cur: "lastCheck s' = Some cur"
  shows "map untimed ns = concat (map (forward s) (items s tree)) @ removals order cur"
proof -
  from sc obtain c where
    w: "Walk (walkFn s now) tree \<lparr>visited = [], created = 0, changed = []\<rparr> = Inr (c, st)"
    by (auto simp: scan_def Let_def split: sum.splits)
  let ?g = "len (lastCheck s) > int (length (visited c)) - created c"
  from sc w prev have ns: "ns = changed (if ?g then remove_pass now order c else c)"
    and l: "lastCheck s' = Some (visited c)"
    by (auto simp: scan_def Let_def)
  from l cur have vc: "visited c = cur" by simp
  have v: "visited c = fold (\<lambda>(file, i). AList.update file i) (items s tree) []"
    using Walk_visited [OF w] by simp
  have dv: "distinct (map fst (visited c))"
    unfolding v by (rule distinct_fold_update) simp
  have kv: "fst ` set (visited c) = fst ` set (items s tree)"
    unfolding v by (simp add: keys_fold_update)
  have cr: "created c = int (length (filter (\<lambda>(file, i). map_of prev file = None) (items s tree)))"
    using Walk_created [OF w] prev by (simp add: lookup_def)
  have so: "set order = set prev" using ord by (metis set_mset_mset)
  show ?thesis
  proof (cases ?g)
    case True
    with ns Walk_changed [OF w] vc show ?thesis by (simp add: changed_remove_pass)
  next
    case False
    with prev cr have "int (length prev) \<le> int (length (visited c)) -
        int (length (filter (\<lambda>(file, i). map_of prev file = None) (items s tree)))"
      by (simp add: len_def)
    also note guard_bound [OF dv kv, of prev]
    finally have "length prev \<le> card (fst ` set (items s tree) \<inter> fst ` set prev)" by simp
    moreover have "card (fst ` set prev) = length prev"
      using dp by (metis distinct_card length_map set_map)
    ultimately have "card (fst ` set prev) \<le> card (fst ` set (items s tree) \<inter> fst ` set prev)"
      by simp
    then have "fst ` set (items s tree) \<inter> fst ` set prev = fst ` set prev"
      by (intro card_seteq) auto
    then have sub: "fst ` set prev \<subseteq> fst ` set (visited c)" using kv by blast
    have "map_of (visited c) f \<noteq> None" if "(f, i) \<in> set order" for f i
    proof -
      from that so have "f \<in> fst ` set prev" by (metis fst_conv image_eqI)
      with sub have "f \<in> fst ` set (visited c)" by blast
      then show ?thesis by (simp add: map_of_eq_None_iff)
    qed
    then have "filter (\<lambda>(file, i). map_of (visited c) file = None) order = []"
      unfolding filter_empty_conv by blast
    then have "removals order (visited c) = []"
      by (simp add: removals_def)
    with False ns Walk_changed [OF w] vc show ?thesis by simp
  qed
qed

subsection \<open>The notices of a cycle\<close>

lemma Event_values:
  "FileCreate = 1" "FileUpdate = 2" "FileRemove = 4" "FileRename = 8"
  by (simp_all add: FileCreate_def FileUpdate_def FileRemove_def FileRename_def)

lemma Event_distinct:
  "FileCreate \<noteq> FileUpdate" "FileCreate \<noteq> FileRemove" "FileUpdate \<noteq> FileRemove"
  "FileUpdate \<noteq> FileCreate" "FileRemove \<noteq> FileCreate" "FileRemove \<noteq> FileUpdate"
  by (simp_all add: Event_values)

lemma scan_parts:
  assumes sc: "scan s now tree order = Inr (s', ns, st)"
  shows "\<exists>cur R. lastCheck s' = Some cur
           \<and> cur = fold (\<lambda>(file, i). AList.update file i) (items s tree) []
           \<and> map untimed ns = concat (map (forward s) (items s tree)) @ R
           \<and> (R = [] \<or> R = removals order cur)"
proof -
  from sc obtain c where
    w: "Walk (walkFn s now) tree \<lparr>visited = [], created = 0, changed = []\<rparr> = Inr (c, st)"
    by (auto simp: scan_def Let_def split: sum.splits)
  let ?g = "lastCheck s \<noteq> None \<and> len (lastCheck s) > int (length (visited c)) - created c"
  from sc w have ns: "ns = changed (if ?g then remove_pass now order c else c)"
    and l: "lastCheck s' = Some (visited c)"
    by (auto simp: scan_def Let_def)
  have v: "visited c = fold (\<lambda>(file, i). AList.update file i) (items s tree) []"
    using Walk_visited [OF w] by simp
  have "map untimed ns = concat (map (forward s) (items s tree)) @
          (if ?g then removals order (visited c) else [])"
    using ns Walk_changed [OF w] by (simp add: changed_remove_pass)
  with l v show ?thesis by auto
qed

lemma prefix_presented: "prefix (presented tree) tree"
  by (induction tree rule: presented.induct) simp_all

lemma subseq_items: "subseq (map fst (items s tree)) (map fst tree)"
proof -
  have "map fst (items s tree) = map fst (filter (selected s) (presented tree))"
    by (simp add: items_def case_prod_unfold comp_def)
  moreover have "subseq (filter (selected s) (presented tree)) tree"
    by (meson prefix_presented prefix_imp_subseq subseq_filter_left subseq_order.order_trans)
  ultimately show ?thesis by (simp add: subseq_map)
qed

lemma distinct_items: "distinct (map fst tree) \<Longrightarrow> distinct (map fst (items s tree))"
proof -
  assume d: "distinct (map fst tree)"
  obtain zs where "tree = presented tree @ zs"
    using prefix_presented [of tree] by (auto simp: prefix_def)
  with d have "distinct (map fst (presented tree))"
    by (metis distinct_append map_append)
  then have "distinct (map fst (filter (selected s) (presented tree)))"
    by (rule distinct_map_filter)
  then show ?thesis by (simp add: items_def case_prod_unfold comp_def)
qed

lemma map_of_snapshot:
  "distinct (map fst tree) \<Longrightarrow>
   map_of (fold (\<lambda>(file, i). AList.update file i) (items s tree) []) = map_of (items s tree)"
  by (rule ext) (simp add: map_of_fold_update distinct_items split: option.splits)

lemma forward_paths: "t \<in> set (forward s (file, i)) \<Longrightarrow> fst t = file \<and> snd (snd t) = i"
  by (auto simp: forward_def split: option.splits if_splits)

lemma forward_events:
  "t \<in> set (forward s p) \<Longrightarrow> fst (snd t) = FileCreate \<or> fst (snd t) = FileUpdate"
  by (auto simp: forward_def split: option.splits if_splits prod.splits)

lemma filter_forward_other:
  "file \<notin> fst ` set xs \<Longrightarrow> filter (\<lambda>t. fst t = file) (concat (map (forward s) xs)) = []"
proof (induction xs)
  case Nil
  then show ?case by simp
next
  case (Cons x xs)
  obtain f j where x: "x = (f, j)" by (cases x)
  with Cons.prems have "f \<noteq> file" by auto
  then have "filter (\<lambda>t. fst t = file) (forward s (f, j)) = []"
    using forward_paths [of _ s f j] by (auto simp: filter_empty_conv)
  with Cons x show ?case by simp
qed

lemma filter_forward:
  "distinct (map fst xs) \<Longrightarrow> (file, i) \<in> set xs \<Longrightarrow>
   filter (\<lambda>t. fst t = file) (concat (map (forward s) xs)) = forward s (file, i)"
proof (induction xs)
  case Nil
  then show ?case by simp
next
  case (Cons x xs)
  obtain f j where x: "x = (f, j)" by (cases x)
  have all: "filter (\<lambda>t. fst t = f) (forward s (f, j)) = forward s (f, j)"
    by (simp add: forward_paths)
  have none: "filter (\<lambda>t. fst t = file) (forward s (g, k)) = []" if "g \<noteq> file" for g k
    using that forward_paths [of _ s g k] by (auto simp: filter_empty_conv)
  show ?case
  proof (cases "f = file")
    case True
    with Cons.prems x have j: "j = i" and "file \<notin> fst ` set xs"
      by (auto simp: image_iff)
    then have "filter (\<lambda>t. fst t = file) (concat (map (forward s) xs)) = []"
      by (simp add: filter_forward_other)
    with True j x all show ?thesis by simp
  next
    case False
    with Cons.prems x have "(file, i) \<in> set xs" "distinct (map fst xs)" by auto
    with Cons.IH x none [OF False] show ?thesis by simp
  qed
qed

lemma filter_removals:
  "map_of cur file \<noteq> None \<Longrightarrow> filter (\<lambda>t. fst t = file) (removals order cur) = []"
  by (auto simp: removals_def filter_empty_conv)

lemma filter_untimed:
  "map untimed (filter (\<lambda>n. path n = file) ns) = filter (\<lambda>t. fst t = file) (map untimed ns)"
  by (simp add: filter_map comp_def untimed_def)

text \<open>
  A cycle returns, rather than panics, when every pattern is compiled and \<^verbatim>\<open>Lstat\<close>
  succeeded on every path.
\<close>

lemma lookup_Some: "lookup (Some al) = map_of al"
  by (rule ext) (simp add: lookup_def)

lemma scan_returns:
  assumes "ZeroRegexp \<notin> set (pattern s)"
    and "\<forall>(file, info, err) \<in> set tree. info \<noteq> None"
  shows "\<exists>s' ns st. scan s now tree order = Inr (s', ns, st)"
proof -
  have m: "\<exists>b. match_loop res fl b0 = Inr b" if "ZeroRegexp \<notin> set res" for res fl b0
    using that
  proof (induction res)
    case Nil
    then show ?case by simp
  next
    case (Cons re res)
    then show ?case by (cases re) auto
  qed
  have f: "\<exists>c' r. walkFn s now c fl (Some i) err = Inr (c', r)" for c fl i err
    using m [OF assms(1), of fl "length (pattern s) = 0"]
    by (auto simp: walkFn_def Let_def)
  have "\<exists>c' r. Walk (walkFn s now) tree c = Inr (c', r)" for c :: cycle
    using assms(2)
  proof (induction tree arbitrary: c)
    case Nil
    then show ?case by simp
  next
    case (Cons v tree)
    obtain fl info err where v: "v = (fl, info, err)" by (cases v)
    with Cons.prems obtain i where i: "info = Some i" by auto
    from f [of c fl i err] obtain c1 r where w: "walkFn s now c fl (Some i) err = Inr (c1, r)"
      by blast
    from Cons.prems have "\<forall>(file, info, err) \<in> set tree. info \<noteq> None" by simp
    from Cons.IH [OF this, of c1] w v i show ?case
      by (cases r) auto
  qed
  then obtain c' r where
    "Walk (walkFn s now) tree \<lparr>visited = [], created = 0, changed = []\<rparr> = Inr (c', r)"
    by blast
  then show ?thesis
    by (simp add: scan_def Let_def)
qed

subsection \<open>First scan\<close>

text \<open>
  Claim C8. On the first scan, when \<^verbatim>\<open>lastCheck\<close> is nil, a cycle that completes sends no
  notice of any kind, and the selected files of the traversal, each with the metadata
  seen, become \<^verbatim>\<open>lastCheck\<close>: they are the baseline, none is reported as created.
\<close>

theorem first_scan_is_baseline:
  assumes "scan s now tree order = Inr (s', ns, st)"
    and "lastCheck s = None"
    and "distinct (map fst tree)"
  shows "ns = [] \<and> lastCheck s' \<noteq> None \<and> lookup (lastCheck s') = map_of (items s tree)"
proof -
  from scan_parts [OF assms(1)] obtain cur R where
    l: "lastCheck s' = Some cur"
    and c: "cur = fold (\<lambda>(file, i). AList.update file i) (items s tree) []"
    by blast
  from l c assms(3) have "lookup (lastCheck s') = map_of (items s tree)"
    by (simp add: lookup_Some map_of_snapshot)
  with scan_first [OF assms(1,2)] l show ?thesis by simp
qed

text \<open>
  Claim C8 on a tree with one directory and one file: no notice, and the file is the
  baseline.
\<close>

theorem first_scan_is_baseline_witness:
  "scan \<lparr>address = ''/srv'', pattern = [], lastCheck = None\<rparr> int
      [(''/srv'', Some \<lparr>IsDir = True, ModTime = 5, Size = 0\<rparr>, None),
       (''/srv/x'', Some \<lparr>IsDir = False, ModTime = 1, Size = 10\<rparr>, None)] []
     = Inr (\<lparr>address = ''/srv'', pattern = [],
             lastCheck = Some [(''/srv/x'', \<lparr>IsDir = False, ModTime = 1, Size = 10\<rparr>)]\<rparr>, [], None)
   \<and> lookup (Some [(''/srv/x'', \<lparr>IsDir = False, ModTime = 1, Size = 10\<rparr>)]) =
       map_of (items \<lparr>address = ''/srv'', pattern = [], lastCheck = None\<rparr>
         [(''/srv'', Some \<lparr>IsDir = True, ModTime = 5, Size = 0\<rparr>, None),
          (''/srv/x'', Some \<lparr>IsDir = False, ModTime = 1, Size = 10\<rparr>, None)])"
proof -
  let ?s = "\<lparr>address = ''/srv'', pattern = [], lastCheck = None\<rparr>"
  let ?tree = "[(''/srv'', Some \<lparr>IsDir = True, ModTime = 5, Size = 0\<rparr>, None),
       (''/srv/x'', Some \<lparr>IsDir = False, ModTime = 1, Size = 10\<rparr>, None)]"
  have h1: "scan ?s int ?tree []
     = Inr (\<lparr>address = ''/srv'', pattern = [],
             lastCheck = Some [(''/srv/x'', \<lparr>IsDir = False, ModTime = 1, Size = 10\<rparr>)]\<rparr>, [], None)"
    by (simp add: scan_def walkFn_def lookup_def len_def send_def)
  have h2: "lastCheck ?s = None" by simp
  have h3: "distinct (map fst ?tree)" by simp
  from first_scan_is_baseline [OF h1 h2 h3] h1 show ?thesis by simp
qed

subsection \<open>The snapshot after a failed traversal\<close>

text \<open>
  Claim C1 says that a cycle whose traversal reports an error leaves \<^verbatim>\<open>lastCheck\<close> as it
  was. The code assigns \<^verbatim>\<open>s.lastCheck = visited\<close> whatever \<^verbatim>\<open>err\<close> is. Here the previous
  snapshot holds \<^verbatim>\<open>/srv/a\<close> and \<^verbatim>\<open>/srv/z/b\<close> and reading the directory \<^verbatim>\<open>/srv/z\<close> fails: the
  cycle reports the error, sends a Remove for \<^verbatim>\<open>/srv/z/b\<close> and installs the mapping that
  holds \<^verbatim>\<open>/srv/a\<close> alone.
\<close>

theorem lastCheck_replaced_after_error_counterexample:
  "scan \<lparr>address = ''/srv'', pattern = [],
          lastCheck = Some [(''/srv/a'', \<lparr>IsDir = False, ModTime = 1, Size = 10\<rparr>),
                            (''/srv/z/b'', \<lparr>IsDir = False, ModTime = 1, Size = 20\<rparr>)]\<rparr> int
      [(''/srv'', Some \<lparr>IsDir = True, ModTime = 5, Size = 0\<rparr>, None),
       (''/srv/a'', Some \<lparr>IsDir = False, ModTime = 1, Size = 10\<rparr>, None),
       (''/srv/z'', Some \<lparr>IsDir = True, ModTime = 5, Size = 0\<rparr>, Some ''permission denied'')]
      [(''/srv/a'', \<lparr>IsDir = False, ModTime = 1, Size = 10\<rparr>),
       (''/srv/z/b'', \<lparr>IsDir = False, ModTime = 1, Size = 20\<rparr>)]
     = Inr (\<lparr>address = ''/srv'', pattern = [],
             lastCheck = Some [(''/srv/a'', \<lparr>IsDir = False, ModTime = 1, Size = 10\<rparr>)]\<rparr>,
            [\<lparr>path = ''/srv/z/b'', event = FileRemove,
              fileinfo = \<lparr>IsDir = False, ModTime = 1, Size = 20\<rparr>, timestamp = 0\<rparr>],
            Some ''permission denied'')
   \<and> Some [(''/srv/a'', \<lparr>IsDir = False, ModTime = 1, Size = 10\<rparr>)] \<noteq>
       Some [(''/srv/a'', \<lparr>IsDir = False, ModTime = 1, Size = 10\<rparr>),
             (''/srv/z/b'', \<lparr>IsDir = False, ModTime = 1, Size = 20\<rparr>)]"
  by (simp add: scan_def walkFn_def lookup_def len_def send_def)

text \<open>
  Claim C1 as the code has it. Every cycle that completes, also one whose traversal
  reports an error, replaces \<^verbatim>\<open>lastCheck\<close> by a non-nil mapping: that of the selected files
  among the calls \<^verbatim>\<open>Walk\<close> made before it stopped. After an error this is the mapping of a
  partial traversal.
\<close>

theorem lastCheck_replaced:
  assumes "scan s now tree order = Inr (s', ns, st)"
    and "distinct (map fst tree)"
  shows "lastCheck s' \<noteq> None \<and> lookup (lastCheck s') = map_of (items s tree)"
proof -
  from scan_parts [OF assms(1)] obtain cur R where
    l: "lastCheck s' = Some cur"
    and c: "cur = fold (\<lambda>(file, i). AList.update file i) (items s tree) []"
    by blast
  with assms(2) show ?thesis
    by (simp add: lookup_Some map_of_snapshot)
qed

text \<open>Claim C1 as the code has it, on the failed traversal above.\<close>

theorem lastCheck_replaced_witness:
  "scan \<lparr>address = ''/srv'', pattern = [],
          lastCheck = Some [(''/srv/a'', \<lparr>IsDir = False, ModTime = 1, Size = 10\<rparr>),
                            (''/srv/z/b'', \<lparr>IsDir = False, ModTime = 1, Size = 20\<rparr>)]\<rparr> int
      [(''/srv'', Some \<lparr>IsDir = True, ModTime = 5, Size = 0\<rparr>, None),
       (''/srv/a'', Some \<lparr>IsDir = False, ModTime = 1, Size = 10\<rparr>, None),
       (''/srv/z'', Some \<lparr>IsDir = True, ModTime = 5, Size = 0\<rparr>, Some ''permission denied'')]
      [(''/srv/a'', \<lparr>IsDir = False, ModTime = 1, Size = 10\<rparr>),
       (''/srv/z/b'', \<lparr>IsDir = False, ModTime = 1, Size = 20\<rparr>)]
     = Inr (\<lparr>address = ''/srv'', pattern = [],
             lastCheck = Some [(''/srv/a'', \<lparr>IsDir = False, ModTime = 1, Size = 10\<rparr>)]\<rparr>,
            [\<lparr>path = ''/srv/z/b'', event = FileRemove,
              fileinfo = \<lparr>IsDir = False, ModTime = 1, Size = 20\<rparr>, timestamp = 0\<rparr>],
            Some ''permission denied'')
   \<and> lookup (Some [(''/srv/a'', \<lparr>IsDir = False, ModTime = 1, Size = 10\<rparr>)]) =
       map_of (items \<lparr>address = ''/srv'', pattern = [],
          lastCheck = Some [(''/srv/a'', \<lparr>IsDir = False, ModTime = 1, Size = 10\<rparr>),
                            (''/srv/z/b'', \<lparr>IsDir = False, ModTime = 1, Size = 20\<rparr>)]\<rparr>
         [(''/srv'', Some \<lparr>IsDir = True, ModTime = 5, Size = 0\<rparr>, None),
          (''/srv/a'', Some \<lparr>IsDir = False, ModTime = 1, Size = 10\<rparr>, None),
          (''/srv/z'', Some \<lparr>IsDir = True, ModTime = 5, Size = 0\<rparr>, Some ''permission denied'')])"
proof -
  let ?s = "\<lparr>address = ''/srv'', pattern = [],
          lastCheck = Some [(''/srv/a'', \<lparr>IsDir = False, ModTime = 1, Size = 10\<rparr>),
                            (''/srv/z/b'', \<lparr>IsDir = False, ModTime = 1, Size = 20\<rparr>)]\<rparr>"
  let ?tree = "[(''/srv'', Some \<lparr>IsDir = True, ModTime = 5, Size = 0\<rparr>, None),
       (''/srv/a'', Some \<lparr>IsDir = False, ModTime = 1, Size = 10\<rparr>, None),
       (''/srv/z'', Some \<lparr>IsDir = True, ModTime = 5, Size = 0\<rparr>, Some ''permission denied'')]"
  let ?order = "[(''/srv/a'', \<lparr>IsDir = False, ModTime = 1, Size = 10\<rparr>),
       (''/srv/z/b'', \<lparr>IsDir = False, ModTime = 1, Size = 20\<rparr>)]"
  have h1: "scan ?s int ?tree ?order
     = Inr (\<lparr>address = ''/srv'', pattern = [],
             lastCheck = Some [(''/srv/a'', \<lparr>IsDir = False, ModTime = 1, Size = 10\<rparr>)]\<rparr>,
            [\<lparr>path = ''/srv/z/b'', event = FileRemove,
              fileinfo = \<lparr>IsDir = False, ModTime = 1, Size = 20\<rparr>, timestamp = 0\<rparr>],
            Some ''permission denied'')"
    by (simp add: scan_def walkFn_def lookup_def len_def send_def)
  have h2: "distinct (map fst ?tree)" by simp
  from lastCheck_replaced [OF h1 h2] h1 show ?thesis by simp
qed

subsection \<open>The first pass\<close>

text \<open>
  Claim C6. In a cycle that completes with a previous snapshot, every selected file that
  the traversal presents is in the new snapshot with the metadata seen, and the notices
  of the cycle about it are: for a file of the previous snapshot, one Update when its
  modification time is after the previous one, or else when the sizes differ, and none
  otherwise; for a file that the previous snapshot does not hold, one Create. Each carries
  the metadata seen in this cycle.
\<close>

theorem forward_diff_rule:
  assumes "scan s now tree order = Inr (s', ns, st)"
    and "lastCheck s = Some prev"
    and "distinct (map fst tree)"
    and "(file, i) \<in> set (items s tree)"
  shows "lookup (lastCheck s') file = Some i
     \<and> map untimed (filter (\<lambda>n. path n = file) ns) =
       (case map_of prev file of
          Some oldinfo \<Rightarrow>
            if ModTime i > ModTime oldinfo then [(file, FileUpdate, i)]
            else if Size oldinfo \<noteq> Size i then [(file, FileUpdate, i)]
            else []
        | None \<Rightarrow> [(file, FileCreate, i)])"
proof -
  from scan_parts [OF assms(1)] obtain cur R where
    l: "lastCheck s' = Some cur"
    and c: "cur = fold (\<lambda>(file, i). AList.update file i) (items s tree) []"
    and n: "map untimed ns = concat (map (forward s) (items s tree)) @ R"
    and r: "R = [] \<or> R = removals order cur"
    by blast
  note mem = assms(4)
  from mem distinct_items [OF assms(3)] have "map_of (items s tree) file = Some i" by simp
  with c assms(3) have m: "map_of cur file = Some i" by (simp add: map_of_snapshot)
  with l have lk: "lookup (lastCheck s') file = Some i" by (simp add: lookup_def)
  from r m have "filter (\<lambda>t. fst t = file) R = []"
    by (auto simp: filter_removals)
  with n have "map untimed (filter (\<lambda>n. path n = file) ns) = forward s (file, i)"
    by (simp add: filter_untimed filter_forward [OF distinct_items [OF assms(3)] mem])
  with assms(2) lk show ?thesis
    by (simp add: forward_def lookup_def split: option.splits)
qed

text \<open>
  Claim C6 on the example of the specification: previous \<^verbatim>\<open>{a: mtime=1, size=10}\<close>,
  current \<^verbatim>\<open>{a: mtime=2, size=10}\<close>, one Update for \<^verbatim>\<open>a\<close>.
\<close>

theorem forward_diff_rule_witness:
  "scan \<lparr>address = ''/srv'', pattern = [],
          lastCheck = Some [(''a'', \<lparr>IsDir = False, ModTime = 1, Size = 10\<rparr>)]\<rparr> int
      [(''a'', Some \<lparr>IsDir = False, ModTime = 2, Size = 10\<rparr>, None)]
      [(''a'', \<lparr>IsDir = False, ModTime = 1, Size = 10\<rparr>)]
     = Inr (\<lparr>address = ''/srv'', pattern = [],
             lastCheck = Some [(''a'', \<lparr>IsDir = False, ModTime = 2, Size = 10\<rparr>)]\<rparr>,
            [\<lparr>path = ''a'', event = FileUpdate,
              fileinfo = \<lparr>IsDir = False, ModTime = 2, Size = 10\<rparr>, timestamp = 0\<rparr>],
            None)
   \<and> map untimed (filter (\<lambda>n. path n = ''a'')
         [\<lparr>path = ''a'', event = FileUpdate,
           fileinfo = \<lparr>IsDir = False, ModTime = 2, Size = 10\<rparr>, timestamp = 0\<rparr>])
       = [(''a'', FileUpdate, \<lparr>IsDir = False, ModTime = 2, Size = 10\<rparr>)]"
proof -
  let ?prev = "[(''a'', \<lparr>IsDir = False, ModTime = 1, Size = 10\<rparr>)]"
  let ?s = "\<lparr>address = ''/srv'', pattern = [], lastCheck = Some ?prev\<rparr>"
  let ?tree = "[(''a'', Some \<lparr>IsDir = False, ModTime = 2, Size = 10\<rparr>, None)]"
  let ?s' = "\<lparr>address = ''/srv'', pattern = [],
             lastCheck = Some [(''a'', \<lparr>IsDir = False, ModTime = 2, Size = 10\<rparr>)]\<rparr>"
  have h1: "scan ?s int ?tree ?prev
     = Inr (?s',
            [\<lparr>path = ''a'', event = FileUpdate,
              fileinfo = \<lparr>IsDir = False, ModTime = 2, Size = 10\<rparr>, timestamp = 0\<rparr>],
            None)"
    by (simp add: scan_def walkFn_def lookup_def len_def send_def)
  have h2: "lastCheck ?s = Some ?prev" by simp
  have h3: "distinct (map fst ?tree)" by simp
  have h4: "(''a'', \<lparr>IsDir = False, ModTime = 2, Size = 10\<rparr>) \<in> set (items ?s ?tree)"
    by (simp add: items_def selected_def)
  from forward_diff_rule [OF h1 h2 h3 h4] h1 show ?thesis by simp
qed

subsection \<open>The second pass\<close>

lemma subseq_forward:
  "subseq (map fst (concat (map (forward s) xs))) (map fst xs)"
proof (induction xs)
  case Nil
  then show ?case by simp
next
  case (Cons x xs)
  obtain f j where x: "x = (f, j)" by (cases x)
  have "map fst (forward s (f, j)) = [] \<or> map fst (forward s (f, j)) = [f]"
    by (auto simp: forward_def split: option.splits)
  with Cons.IH x show ?case
    by (auto simp: subseq_Cons')
qed

lemma count_key:
  "distinct (map fst xs) \<Longrightarrow>
   length (filter (\<lambda>p. fst p = k) xs) = (if k \<in> fst ` set xs then 1 else 0)"
proof (induction xs)
  case Nil
  then show ?case by simp
next
  case (Cons x xs)
  then have "fst x = k \<Longrightarrow> filter (\<lambda>p. fst p = k) xs = []"
    by (auto simp: filter_empty_conv image_iff)
  with Cons show ?case by auto
qed

lemma count_removals:
  assumes "distinct (map fst order)"
  shows "length (filter (\<lambda>t. fst t = k \<and> fst (snd t) = FileRemove) (removals order cur)) =
           (if k \<in> fst ` set order \<and> map_of cur k = None then 1 else 0)"
proof -
  have "length (filter (\<lambda>t. fst t = k \<and> fst (snd t) = FileRemove) (removals order cur)) =
          length (filter (\<lambda>p. fst p = k \<and> map_of cur (fst p) = None) order)"
    by (simp add: removals_def filter_map comp_def case_prod_unfold conj_commute)
  also have "\<dots> = (if map_of cur k = None then length (filter (\<lambda>p. fst p = k) order) else 0)"
    by (auto intro: arg_cong [where f = length] filter_cong)
  finally show ?thesis using count_key [OF assms, of k] by simp
qed

lemma count_forward:
  "filter (\<lambda>t. fst t = k \<and> fst (snd t) = FileRemove) (concat (map (forward s) xs)) = []"
  unfolding filter_empty_conv using forward_events Event_distinct by fastforce

text \<open>
  Claim C7. In a cycle that completes with a previous snapshot, the notices are those of
  the first pass, all Create or Update and in the order of the traversal, followed by the
  Remove notices: one for each entry of the previous snapshot whose file the new snapshot
  does not hold, in the order of the \<^verbatim>\<open>range\<close>, and none for any other file.
\<close>

theorem removal_pass_after_forward_pass:
  assumes "scan s now tree order = Inr (s', ns, st)"
    and "lastCheck s = Some prev"
    and "distinct (map fst prev)"
    and "mset order = mset prev"
    and "lastCheck s' = Some cur"
  shows "\<exists>fwd rem. ns = fwd @ rem
     \<and> (\<forall>n \<in> set fwd. event n = FileCreate \<or> event n = FileUpdate)
     \<and> subseq (map path fwd) (map fst tree)
     \<and> map untimed rem =
         map (\<lambda>(file, i). (file, FileRemove, i)) (filter (\<lambda>(file, i). map_of cur file = None) order)
     \<and> (\<forall>file. length (filter (\<lambda>n. path n = file \<and> event n = FileRemove) ns) =
           (if map_of prev file \<noteq> None \<and> map_of cur file = None then 1 else 0))"
proof -
  let ?A = "concat (map (forward s) (items s tree))"
  let ?B = "removals order cur"
  have n: "map untimed ns = ?A @ ?B"
    by (rule scan_notices [OF assms])
  define fwd where "fwd = take (length ?A) ns"
  define rem where "rem = drop (length ?A) ns"
  have split: "ns = fwd @ rem" by (simp add: fwd_def rem_def)
  have a: "map untimed fwd = ?A"
    unfolding fwd_def take_map [symmetric] n by simp
  have b: "map untimed rem = ?B"
    unfolding rem_def drop_map [symmetric] n by simp
  have ev: "event m = FileCreate \<or> event m = FileUpdate" if "m \<in> set fwd" for m
  proof -
    from that have "untimed m \<in> set (map untimed fwd)" by simp
    then have "untimed m \<in> set ?A" by (simp only: a)
    then obtain p where "untimed m \<in> set (forward s p)" by auto
    from forward_events [OF this] show ?thesis by (simp add: untimed_def)
  qed
  have "map path fwd = map fst (map untimed fwd)"
    by (simp add: untimed_def comp_def)
  then have "subseq (map path fwd) (map fst (items s tree))"
    using subseq_forward [of s "items s tree"] by (simp add: a)
  then have order: "subseq (map path fwd) (map fst tree)"
    using subseq_items subseq_order.order_trans by blast
  have dom: "fst ` set order = fst ` set prev"
    using assms(4) by (metis set_mset_mset)
  have "mset (map fst order) = mset (map fst prev)"
    using assms(4) by (metis mset_map)
  then have d: "distinct (map fst order)"
    using assms(3) by (metis distinct_count_atmost_1 count_mset_0_iff set_mset_mset)
  have cnt: "length (filter (\<lambda>n. path n = k \<and> event n = FileRemove) ns) =
               (if map_of prev k \<noteq> None \<and> map_of cur k = None then 1 else 0)" for k
  proof -
    have "length (filter (\<lambda>n. path n = k \<and> event n = FileRemove) ns) =
            length (filter (\<lambda>t. fst t = k \<and> fst (snd t) = FileRemove) (map untimed ns))"
      by (simp add: filter_map comp_def untimed_def)
    also have "\<dots> = length (filter (\<lambda>t. fst t = k \<and> fst (snd t) = FileRemove) ?B)"
      by (simp add: n count_forward)
    also have "\<dots> = (if k \<in> fst ` set order \<and> map_of cur k = None then 1 else 0)"
      by (rule count_removals [OF d])
    finally show ?thesis
      by (simp add: dom map_of_eq_None_iff)
  qed
  from split ev order b cnt show ?thesis
    unfolding removals_def by blast
qed

text \<open>
  Claim C7 on the example of the specification: previous \<^verbatim>\<open>{a, b}\<close>, current \<^verbatim>\<open>{a}\<close>, one
  Remove for \<^verbatim>\<open>b\<close> and none for \<^verbatim>\<open>a\<close>.
\<close>

theorem removal_pass_after_forward_pass_witness:
  "scan \<lparr>address = ''/srv'', pattern = [],
          lastCheck = Some [(''a'', \<lparr>IsDir = False, ModTime = 1, Size = 10\<rparr>),
                            (''b'', \<lparr>IsDir = False, ModTime = 1, Size = 20\<rparr>)]\<rparr> int
      [(''a'', Some \<lparr>IsDir = False, ModTime = 1, Size = 10\<rparr>, None)]
      [(''b'', \<lparr>IsDir = False, ModTime = 1, Size = 20\<rparr>),
       (''a'', \<lparr>IsDir = False, ModTime = 1, Size = 10\<rparr>)]
     = Inr (\<lparr>address = ''/srv'', pattern = [],
             lastCheck = Some [(''a'', \<lparr>IsDir = False, ModTime = 1, Size = 10\<rparr>)]\<rparr>,
            [\<lparr>path = ''b'', event = FileRemove,
              fileinfo = \<lparr>IsDir = False, ModTime = 1, Size = 20\<rparr>, timestamp = 0\<rparr>],
            None)
   \<and> length (filter (\<lambda>n. path n = ''b'' \<and> event n = FileRemove)
         [\<lparr>path = ''b'', event = FileRemove,
           fileinfo = \<lparr>IsDir = False, ModTime = 1, Size = 20\<rparr>, timestamp = 0\<rparr>]) = 1
   \<and> length (filter (\<lambda>n. path n = ''a'' \<and> event n = FileRemove)
         [\<lparr>path = ''b'', event = FileRemove,
           fileinfo = \<lparr>IsDir = False, ModTime = 1, Size = 20\<rparr>, timestamp = 0\<rparr>]) = 0"
proof -
  let ?prev = "[(''a'', \<lparr>IsDir = False, ModTime = 1, Size = 10\<rparr>),
                (''b'', \<lparr>IsDir = False, ModTime = 1, Size = 20\<rparr>)]"
  let ?order = "[(''b'', \<lparr>IsDir = False, ModTime = 1, Size = 20\<rparr>),
                 (''a'', \<lparr>IsDir = False, ModTime = 1, Size = 10\<rparr>)]"
  let ?cur = "[(''a'', \<lparr>IsDir = False, ModTime = 1, Size = 10\<rparr>)]"
  let ?s = "\<lparr>address = ''/srv'', pattern = [], lastCheck = Some ?prev\<rparr>"
  let ?s' = "\<lparr>address = ''/srv'', pattern = [], lastCheck = Some ?cur\<rparr>"
  let ?tree = "[(''a'', Some \<lparr>IsDir = False, ModTime = 1, Size = 10\<rparr>, None)]"
  let ?ns = "[\<lparr>path = ''b'', event = FileRemove,
              fileinfo = \<lparr>IsDir = False, ModTime = 1, Size = 20\<rparr>, timestamp = 0\<rparr>]"
  have h1: "scan ?s int ?tree ?order = Inr (?s', ?ns, None)"
    by (simp add: scan_def walkFn_def lookup_def len_def send_def)
  have h2: "lastCheck ?s = Some ?prev" by simp
  have h3: "distinct (map fst ?prev)" by simp
  have h4: "mset ?order = mset ?prev" by simp
  have h5: "lastCheck ?s' = Some ?cur" by simp
  from removal_pass_after_forward_pass [OF h1 h2 h3 h4 h5]
  have cnt: "length (filter (\<lambda>n. path n = k \<and> event n = FileRemove) ?ns) =
               (if map_of ?prev k \<noteq> None \<and> map_of ?cur k = None then 1 else 0)" for k
    by blast
  from cnt [of "''b''"] cnt [of "''a''"] h1 show ?thesis by simp
qed

subsection \<open>An unchanged tree\<close>

text \<open>
  Claim C9. A cycle that completes, and in which the selected files that the traversal
  presents are the files of the previous snapshot, each with the modification time and
  size it had there, sends no notice.
\<close>

theorem unchanged_tree_no_notices:
  assumes "scan s now tree order = Inr (s', ns, st)"
    and "lastCheck s = Some prev"
    and "mset order = mset prev"
    and "distinct (map fst tree)"
    and "\<forall>file. map_option (\<lambda>i. (ModTime i, Size i)) (map_of (items s tree) file) =
                 map_option (\<lambda>i. (ModTime i, Size i)) (map_of prev file)"
  shows "ns = []"
proof -
  from scan_parts [OF assms(1)] obtain cur R where
    c: "cur = fold (\<lambda>(file, i). AList.update file i) (items s tree) []"
    and n: "map untimed ns = concat (map (forward s) (items s tree)) @ R"
    and r: "R = [] \<or> R = removals order cur"
    by auto
  have m: "map_of cur = map_of (items s tree)"
    using c assms(4) by (simp add: map_of_snapshot)
  have same: "map_option (\<lambda>i. (ModTime i, Size i)) (map_of cur k) =
              map_option (\<lambda>i. (ModTime i, Size i)) (map_of prev k)" for k
    using assms(5) m by simp
  have "forward s p = []" if "p \<in> set (items s tree)" for p
  proof -
    obtain f i where p: "p = (f, i)" by (cases p)
    with that have "map_of (items s tree) f = Some i"
      using distinct_items [OF assms(4)] by simp
    with m same [of f] obtain oldinfo where
      "map_of prev f = Some oldinfo" "ModTime oldinfo = ModTime i" "Size oldinfo = Size i"
      by (cases "map_of prev f") auto
    with p assms(2) show ?thesis
      by (simp add: forward_def lookup_def)
  qed
  then have a: "concat (map (forward s) (items s tree)) = []" by simp
  have "map_of cur f \<noteq> None" if "(f, i) \<in> set order" for f i
  proof -
    from that assms(3) have "(f, i) \<in> set prev" by (metis set_mset_mset)
    then have "map_of prev f \<noteq> None"
      by (metis fst_conv image_eqI map_of_eq_None_iff)
    with same [of f] show ?thesis by auto
  qed
  then have "filter (\<lambda>(file, i). map_of cur file = None) order = []"
    unfolding filter_empty_conv by blast
  then have "removals order cur = []" by (simp add: removals_def)
  with r n a show ?thesis by auto
qed

text \<open>Claim C9 on a tree of two files, the \<^verbatim>\<open>range\<close> meeting them in the other order.\<close>

theorem unchanged_tree_no_notices_witness:
  "scan \<lparr>address = ''/srv'', pattern = [],
          lastCheck = Some [(''a'', \<lparr>IsDir = False, ModTime = 1, Size = 10\<rparr>),
                            (''b'', \<lparr>IsDir = False, ModTime = 3, Size = 20\<rparr>)]\<rparr> int
      [(''/srv'', Some \<lparr>IsDir = True, ModTime = 9, Size = 0\<rparr>, None),
       (''a'', Some \<lparr>IsDir = False, ModTime = 1, Size = 10\<rparr>, None),
       (''b'', Some \<lparr>IsDir = False, ModTime = 3, Size = 20\<rparr>, None)]
      [(''b'', \<lparr>IsDir = False, ModTime = 3, Size = 20\<rparr>),
       (''a'', \<lparr>IsDir = False, ModTime = 1, Size = 10\<rparr>)]
     = Inr (\<lparr>address = ''/srv'', pattern = [],
             lastCheck = Some [(''a'', \<lparr>IsDir = False, ModTime = 1, Size = 10\<rparr>),
                               (''b'', \<lparr>IsDir = False, ModTime = 3, Size = 20\<rparr>)]\<rparr>,
            [], None)"
proof -
  let ?prev = "[(''a'', \<lparr>IsDir = False, ModTime = 1, Size = 10\<rparr>),
                (''b'', \<lparr>IsDir = False, ModTime = 3, Size = 20\<rparr>)]"
  let ?order = "[(''b'', \<lparr>IsDir = False, ModTime = 3, Size = 20\<rparr>),
                 (''a'', \<lparr>IsDir = False, ModTime = 1, Size = 10\<rparr>)]"
  let ?s = "\<lparr>address = ''/srv'', pattern = [], lastCheck = Some ?prev\<rparr>"
  let ?tree = "[(''/srv'', Some \<lparr>IsDir = True, ModTime = 9, Size = 0\<rparr>, None),
       (''a'', Some \<lparr>IsDir = False, ModTime = 1, Size = 10\<rparr>, None),
       (''b'', Some \<lparr>IsDir = False, ModTime = 3, Size = 20\<rparr>, None)]"
  obtain s' ns st where h1: "scan ?s int ?tree ?order = Inr (s', ns, st)"
    and s': "s' = ?s" and st: "st = None"
    by (simp add: scan_def walkFn_def lookup_def len_def send_def)
  have h2: "lastCheck ?s = Some ?prev" by simp
  have h3: "mset ?order = mset ?prev" by simp
  have h4: "distinct (map fst ?tree)" by simp
  have h5: "\<forall>file. map_option (\<lambda>i. (ModTime i, Size i)) (map_of (items ?s ?tree) file) =
                 map_option (\<lambda>i. (ModTime i, Size i)) (map_of ?prev file)"
    by (simp add: items_def selected_def)
  from unchanged_tree_no_notices [OF h1 h2 h3 h4 h5] h1 s' st show ?thesis by simp
qed

subsection \<open>Delivery to the subscriber\<close>

lemma deliver_replicate: "deliver evs n = replicate (count_list evs (Type n)) n"
  by (induction evs) auto

text \<open>
  Claim C2 says that a notice is forwarded when its kind includes a requested kind. The
  loop compares with \<^verbatim>\<open>e == n.Type()\<close>: a notice of kind \<^verbatim>\<open>FileCreate|FileUpdate\<close> includes
  \<^verbatim>\<open>FileCreate\<close> and is not forwarded to a subscriber of \<^verbatim>\<open>FileCreate\<close>.
\<close>

theorem forwarded_on_included_kind_counterexample:
  "Type \<lparr>path = ''a'', event = FileCreate OR FileUpdate,
          fileinfo = \<lparr>IsDir = False, ModTime = 1, Size = 10\<rparr>, timestamp = 0\<rparr> AND FileCreate
     = FileCreate
   \<and> deliver [FileCreate]
        \<lparr>path = ''a'', event = FileCreate OR FileUpdate,
          fileinfo = \<lparr>IsDir = False, ModTime = 1, Size = 10\<rparr>, timestamp = 0\<rparr> = []"
  by (simp add: Type_def Event_values)

text \<open>
  Claim C2 as the code has it. A drained notice is forwarded exactly when its kind is
  equal to one of the requested events, and nothing but that notice is sent.
\<close>

theorem forwarded_iff_exact_kind:
  "(deliver evs n \<noteq> []) = (Type n \<in> set evs) \<and> set (deliver evs n) \<subseteq> {n}"
  by (induction evs) auto

text \<open>
  Claim C2 as the code has it, for a subscriber of Create and Remove: a Create notice is
  forwarded, a notice of kind \<^verbatim>\<open>FileCreate|FileUpdate\<close> is not.
\<close>

theorem forwarded_iff_exact_kind_witness:
  "deliver [FileCreate, FileRemove]
     \<lparr>path = ''a'', event = FileCreate,
       fileinfo = \<lparr>IsDir = False, ModTime = 1, Size = 10\<rparr>, timestamp = 0\<rparr> \<noteq> []
   \<and> deliver [FileCreate, FileRemove]
        \<lparr>path = ''a'', event = FileCreate OR FileUpdate,
          fileinfo = \<lparr>IsDir = False, ModTime = 1, Size = 10\<rparr>, timestamp = 0\<rparr> = []"
  using forwarded_iff_exact_kind [of "[FileCreate, FileRemove]"
      "\<lparr>path = ''a'', event = FileCreate,
        fileinfo = \<lparr>IsDir = False, ModTime = 1, Size = 10\<rparr>, timestamp = 0\<rparr>"]
    forwarded_iff_exact_kind [of "[FileCreate, FileRemove]"
      "\<lparr>path = ''a'', event = FileCreate OR FileUpdate,
        fileinfo = \<lparr>IsDir = False, ModTime = 1, Size = 10\<rparr>, timestamp = 0\<rparr>"]
  by (simp add: Type_def Event_values)

text \<open>
  Claim C10. When the loop drains a notice from the buffer, it sends it on \<^verbatim>\<open>m.notices\<close>
  once for each occurrence of its kind in the event list of \<^verbatim>\<open>Start\<close>; with an empty list
  nothing is sent.
\<close>

theorem delivery_multiplicity:
  assumes "step p Drain = Some p'" and "noticeBuffer p = n # rest"
  shows "notices p' = notices p @ replicate (count_list (events p) (Type n)) n
     \<and> (events p = [] \<longrightarrow> notices p' = notices p)"
  using assms by (auto simp: deliver_replicate split: if_splits)

text \<open>Claim C10 for the list Create, Update, Create: a Create notice is sent twice.\<close>

theorem delivery_multiplicity_witness:
  "step ((Start \<lparr>address = ''/srv'', pattern = [], lastCheck = None\<rparr> [FileCreate, FileUpdate, FileCreate])
          \<lparr>noticeBuffer := [\<lparr>path = ''a'', event = FileCreate,
              fileinfo = \<lparr>IsDir = False, ModTime = 1, Size = 10\<rparr>, timestamp = 0\<rparr>]\<rparr>) Drain
     = Some ((Start \<lparr>address = ''/srv'', pattern = [], lastCheck = None\<rparr> [FileCreate, FileUpdate, FileCreate])
          \<lparr>noticeBuffer := [],
            notices := [\<lparr>path = ''a'', event = FileCreate,
                fileinfo = \<lparr>IsDir = False, ModTime = 1, Size = 10\<rparr>, timestamp = 0\<rparr>,
              \<lparr>path = ''a'', event = FileCreate,
                fileinfo = \<lparr>IsDir = False, ModTime = 1, Size = 10\<rparr>, timestamp = 0\<rparr>]\<rparr>)"
proof -
  let ?n = "\<lparr>path = ''a'', event = FileCreate,
              fileinfo = \<lparr>IsDir = False, ModTime = 1, Size = 10\<rparr>, timestamp = 0\<rparr>"
  let ?p = "(Start \<lparr>address = ''/srv'', pattern = [], lastCheck = None\<rparr> [FileCreate, FileUpdate, FileCreate])
          \<lparr>noticeBuffer := [?n]\<rparr>"
  obtain p' where h1: "step ?p Drain = Some p'"
    and p': "p' = ?p\<lparr>noticeBuffer := [], notices := notices ?p @ deliver (events ?p) ?n\<rparr>"
    by (simp add: Start_def)
  have h2: "noticeBuffer ?p = ?n # []" by simp
  from delivery_multiplicity [OF h1 h2]
  have "notices p' = notices ?p @ replicate (count_list (events ?p) (Type ?n)) ?n" by blast
  then have "notices p' = [?n, ?n]"
    by (simp add: Start_def Type_def Event_values)
  with p' have "p' = ?p\<lparr>noticeBuffer := [], notices := [?n, ?n]\<rparr>"
    by (simp add: Start_def)
  with h1 show ?thesis by simp
qed

subsection \<open>Patterns through New\<close>

text \<open>
  The slice that \<^verbatim>\<open>New\<close> builds for a non-empty pattern list starts with a zero
  \<^verbatim>\<open>Regexp\<close>, and the function of the walk panics on the first file it is given. With no
  pattern every file is selected. The earlier \<^verbatim>\<open>Watch\<close> builds the list of the compiled
  expressions alone, and a scanner with that list leaves out the files that do not match.
\<close>

lemma compile_loop_append:
  "compile_loop Compile pats patexp = Inr res \<Longrightarrow> \<exists>more. res = patexp @ more"
proof (induction pats arbitrary: patexp)
  case Nil
  then show ?case by simp
next
  case (Cons pat pats)
  from Cons.prems obtain exp where
    "compile_loop Compile pats (patexp @ [Compiled exp]) = Inr res"
    by (auto split: sum.splits)
  from Cons.IH [OF this] show ?case by auto
qed

lemma New_zero_first:
  assumes "New Compile addr pats watcher = Inr (PathScanner s)" and "pats \<noteq> []"
  shows "\<exists>res. pattern s = ZeroRegexp # res"
proof -
  from assms(1) obtain patexp where
    c: "compile_loop Compile pats (replicate (length pats) ZeroRegexp) = Inr patexp"
    and p: "pattern s = patexp"
    by (auto simp: New_def split: sum.splits watcher_arg.splits if_splits)
  from compile_loop_append [OF c] obtain more where
    "patexp = replicate (length pats) ZeroRegexp @ more" by blast
  with p assms(2) show ?thesis by (cases pats) auto
qed

lemma zero_first_panics:
  "pattern s = ZeroRegexp # res \<Longrightarrow> \<not> IsDir i \<Longrightarrow>
   walkFn s now c fl (Some i) err = Inl SliceBoundsOutOfRange"
  by (simp add: walkFn_def)

lemma New_no_patterns:
  "New Compile addr [] (ByName ''path'') =
     Inr (PathScanner \<lparr>address = addr, pattern = [], lastCheck = None\<rparr>)"
  by (simp add: New_def)

lemma no_patterns_select_all:
  "pattern s = [] \<Longrightarrow> selected s (fl, Some i, err) = (\<not> IsDir i)"
  by (simp add: selected_def)

lemma Watch_patexp_log:
  "Watch_patexp Compile_log [log_pattern] = Inr [Compiled (suffix ''.log'')]"
  by (simp add: Watch_patexp_def Compile_log_def)

lemma compiled_log_excludes:
  "scan \<lparr>address = ''/srv'', pattern = [Compiled (suffix ''.log'')], lastCheck = None\<rparr> int
      [(''/srv/a.txt'', Some \<lparr>IsDir = False, ModTime = 1, Size = 10\<rparr>, None),
       (''/srv/b.log'', Some \<lparr>IsDir = False, ModTime = 1, Size = 20\<rparr>, None)] []
     = Inr (\<lparr>address = ''/srv'', pattern = [Compiled (suffix ''.log'')],
             lastCheck = Some [(''/srv/b.log'', \<lparr>IsDir = False, ModTime = 1, Size = 20\<rparr>)]\<rparr>,
            [], None)"
  by (simp add: scan_def walkFn_def lookup_def len_def send_def suffix_def)

text \<open>
  Claim C3. A monitor built by \<^verbatim>\<open>New\<close> with the pattern list \<^verbatim>\<open>["\.log$"]\<close> is to leave
  \<^verbatim>\<open>/srv/a.txt\<close> out and go on. Its scanner holds a zero \<^verbatim>\<open>Regexp\<close> before the compiled
  expression, and the cycle that meets \<^verbatim>\<open>/srv/a.txt\<close> panics.
\<close>

theorem New_log_pattern_panics:
  "New Compile_log ''/srv'' [log_pattern] (ByName ''path'' :: unit watcher_arg) =
     Inr (PathScanner
       \<lparr>address = ''/srv'', pattern = [ZeroRegexp, Compiled (suffix ''.log'')], lastCheck = None\<rparr>)
   \<and> scan \<lparr>address = ''/srv'', pattern = [ZeroRegexp, Compiled (suffix ''.log'')], lastCheck = None\<rparr>
        int [(''/srv/a.txt'', Some \<lparr>IsDir = False, ModTime = 1, Size = 10\<rparr>, None)] []
     = Inl SliceBoundsOutOfRange"
  by (simp add: New_def Compile_log_def scan_def walkFn_def)

subsection \<open>The pipeline\<close>

lemma step_Tick:
  "step p Tick = Some p' \<Longrightarrow>
   loop p = Select \<and> timeTick p \<noteq> NoTimer \<and> p' = p\<lparr>timeTick := NoTimer, loop := SendRequest\<rparr>"
  by (simp split: if_splits)

lemma step_Hand:
  "step p Hand = Some p' \<Longrightarrow>
   loop p = SendRequest \<and>
   (ncc_closed p \<and> p' = p\<lparr>crashed := Some SendOnClosedChannel\<rparr>
    \<or> \<not> ncc_closed p \<and> worker p = Receive
        \<and> p' = p\<lparr>loop := Select, worker := Walking, requests := requests p + 1\<rparr>)"
  by (simp split: if_splits)

lemma step_Scan:
  "step p (Scan tree order now) = Some p' \<Longrightarrow>
   worker p = Walking \<and>
   ((\<exists>f. p' = p\<lparr>crashed := Some f\<rparr>) \<or> (\<exists>ns sc err. p' = p\<lparr>worker := Emitting ns sc err\<rparr>))"
  by (simp split: if_splits sum.splits prod.splits) blast+

lemma step_Emit:
  "step p Emit = Some p' \<Longrightarrow>
   \<exists>n ns sc err. worker p = Emitting (n # ns) sc err
     \<and> p' = p\<lparr>noticeBuffer := noticeBuffer p @ [n], worker := Emitting ns sc err\<rparr>"
  by (simp split: if_splits worker_at.splits list.splits)

lemma step_Install:
  "step p Install = Some p' \<Longrightarrow>
   \<exists>sc err. worker p = Emitting [] sc err \<and> p' = p\<lparr>scanner := sc, worker := Report err\<rparr>"
  by (simp split: if_splits worker_at.splits list.splits)

lemma step_Status:
  "step p Status = Some p' \<Longrightarrow>
   loop p = Select \<and>
   (\<exists>err. worker p = Report err
      \<and> p' = p\<lparr>worker := Receive, statuses := statuses p @ [err],
                 timeTick := (if err \<noteq> None then Cooldown else Ticking)\<rparr>)"
  by (cases "worker p"; cases "crashed p = None \<and> loop p = Select") auto

lemma step_Drain:
  "step p Drain = Some p' \<Longrightarrow>
   loop p = Select \<and>
   (\<exists>n rest. noticeBuffer p = n # rest
      \<and> p' = p\<lparr>noticeBuffer := rest, notices := notices p @ deliver (events p) n\<rparr>)"
  by (simp split: if_splits list.splits)

lemma step_CallStop:
  "step p CallStop = Some p' \<Longrightarrow> stop p = NotCalled \<and> p' = p\<lparr>stop := Requesting\<rparr>"
  by (simp split: if_splits)

lemma step_Closing:
  "step p Closing = Some p' \<Longrightarrow>
   loop p = Select \<and> stop p = Requesting \<and>
   (ncc_closed p
      \<and> p' = p\<lparr>returning := True, stop := Waiting, crashed := Some CloseOfClosedChannel\<rparr>
    \<or> \<not> ncc_closed p \<and> p' = p\<lparr>returning := True, stop := Waiting, ncc_closed := True\<rparr>)"
  by (simp split: if_splits)

lemma step_WorkerExit:
  "step p WorkerExit = Some p' \<Longrightarrow>
   worker p = Receive \<and> ncc_closed p \<and> p' = p\<lparr>worker := Exited, errors_closed := True\<rparr>"
  by (simp split: if_splits)

lemma step_Shutdown:
  "step p Shutdown = Some p' \<Longrightarrow>
   loop p = Select \<and> errors_closed p \<and>
   p' = p\<lparr>noticeBuffer := (case noticeBuffer p of [] \<Rightarrow> [] | n # rest \<Rightarrow> rest),
           noticeBuffer_closed := True, loop := Release\<rparr>"
  by (simp split: if_splits)

lemma step_Unblock:
  "step p Unblock = Some p' \<Longrightarrow>
   loop p = Release \<and> returning p \<and> stop p = Waiting \<and> p' = p\<lparr>loop := Returned, stop := Got None\<rparr>"
  by (simp split: if_splits)

lemma step_StopReturn:
  "step p StopReturn = Some p' \<Longrightarrow>
   (\<exists>x. stop p = Got (Some x) \<and> p' = p\<lparr>crashed := Some FatalExit\<rparr>)
   \<or> stop p = Got None \<and> p' = p\<lparr>notices_closed := True, stop := Stopped None\<rparr>"
  by (simp split: if_splits stop_at.splits option.splits)

lemma busy_simps:
  "\<not> busy Receive" "busy Walking" "busy (Emitting ns sc e)" "busy (Report e)" "\<not> busy Exited"
  by (simp_all add: busy_def)

lemma serial_Start: "serial (Start sc evs)"
  by (simp add: serial_def Start_def busy_simps)

lemma serial_Emit:
  assumes "serial p" and "step p Emit = Some p'"
  shows "serial p'"
proof -
  from step_Emit [OF assms(2)] obtain n ns sc err where
    w: "worker p = Emitting (n # ns) sc err"
    and p': "p' = p\<lparr>noticeBuffer := noticeBuffer p @ [n], worker := Emitting ns sc err\<rparr>"
    by blast
  from assms(1) w have "requests p = Suc (length (statuses p))" "timeTick p = NoTimer"
    "loop p = Select" "\<not> errors_closed p"
    by (auto simp: serial_def busy_simps)
  then show ?thesis unfolding p' by (simp add: serial_def busy_simps)
qed

lemma serial_Install:
  assumes "serial p" and "step p Install = Some p'"
  shows "serial p'"
proof -
  from step_Install [OF assms(2)] obtain sc err where
    w: "worker p = Emitting [] sc err"
    and p': "p' = p\<lparr>scanner := sc, worker := Report err\<rparr>"
    by blast
  from assms(1) w have "requests p = Suc (length (statuses p))" "timeTick p = NoTimer"
    "loop p = Select" "\<not> errors_closed p"
    by (auto simp: serial_def busy_simps)
  then show ?thesis unfolding p' by (simp add: serial_def busy_simps)
qed

lemma serial_Status:
  assumes "serial p" and "step p Status = Some p'"
  shows "serial p'"
proof -
  from step_Status [OF assms(2)] obtain err where
    w: "worker p = Report err"
    and p': "p' = p\<lparr>worker := Receive, statuses := statuses p @ [err],
                      timeTick := (if err \<noteq> None then Cooldown else Ticking)\<rparr>"
    by blast
  from assms(1) w have "requests p = Suc (length (statuses p))" "timeTick p = NoTimer"
    "loop p = Select" "\<not> errors_closed p"
    by (auto simp: serial_def busy_simps)
  then show ?thesis unfolding p' by (simp add: serial_def busy_simps)
qed

lemma serial_Drain:
  assumes "serial p" and "step p Drain = Some p'"
  shows "serial p'"
proof -
  from step_Drain [OF assms(2)] obtain n rest where
    p': "p' = p\<lparr>noticeBuffer := rest, notices := notices p @ deliver (events p) n\<rparr>"
    by blast
  have "serial p' = serial p" unfolding p' serial_def by simp
  with assms(1) show ?thesis by simp
qed

lemma serial_WorkerExit:
  assumes "serial p" and "step p WorkerExit = Some p'"
  shows "serial p'"
proof -
  from step_WorkerExit [OF assms(2)] have w: "worker p = Receive"
    and p': "p' = p\<lparr>worker := Exited, errors_closed := True\<rparr>"
    by simp_all
  from assms(1) w have "requests p = length (statuses p)"
    "loop p = SendRequest \<longrightarrow> timeTick p = NoTimer"
    "loop p \<noteq> Release" "loop p \<noteq> Returned"
    by (auto simp: serial_def busy_simps)
  then show ?thesis unfolding p' by (simp add: serial_def busy_simps)
qed

lemma serial_Tick:
  assumes "serial p" and "step p Tick = Some p'"
  shows "serial p'"
proof -
  from step_Tick [OF assms(2)] have l: "loop p = Select" "timeTick p \<noteq> NoTimer"
    and p': "p' = p\<lparr>timeTick := NoTimer, loop := SendRequest\<rparr>"
    by simp_all
  from assms(1) l have nb: "\<not> busy (worker p)"
    unfolding serial_def by blast
  with assms(1) have "requests p = length (statuses p)" "errors_closed p \<longrightarrow> worker p = Exited"
    unfolding serial_def by blast+
  with nb show ?thesis unfolding p' by (simp add: serial_def)
qed

lemma serial_Hand:
  assumes "serial p" and "step p Hand = Some p'"
  shows "serial p'"
proof -
  from step_Hand [OF assms(2)] have l: "loop p = SendRequest" by blast
  from assms(1) l have nb: "\<not> busy (worker p)" and t: "timeTick p = NoTimer"
    unfolding serial_def by auto
  from assms(1) nb have r: "requests p = length (statuses p)"
    and e: "errors_closed p \<longrightarrow> worker p = Exited"
    unfolding serial_def by blast+
  from step_Hand [OF assms(2)] consider
    "p' = p\<lparr>crashed := Some SendOnClosedChannel\<rparr>"
    | "worker p = Receive" "p' = p\<lparr>loop := Select, worker := Walking, requests := requests p + 1\<rparr>"
    by blast
  then show ?thesis
  proof cases
    case 1
    have "serial p' = serial p" unfolding 1 serial_def by simp
    with assms(1) show ?thesis by simp
  next
    case 2
    from 2(1) e have "\<not> errors_closed p" by simp
    with r t show ?thesis unfolding 2(2) by (simp add: serial_def busy_simps)
  qed
qed

lemma serial_Scan:
  assumes "serial p" and "step p (Scan tree order now) = Some p'"
  shows "serial p'"
proof -
  from step_Scan [OF assms(2)] have w: "worker p = Walking" by blast
  from assms(1) w have f: "requests p = Suc (length (statuses p))" "timeTick p = NoTimer"
    "loop p = Select" "\<not> errors_closed p"
    by (auto simp: serial_def busy_simps)
  from step_Scan [OF assms(2)] consider f where "p' = p\<lparr>crashed := Some f\<rparr>"
    | ns sc err where "p' = p\<lparr>worker := Emitting ns sc err\<rparr>"
    by blast
  then show ?thesis
  proof cases
    case 1
    have "serial p' = serial p" unfolding 1 serial_def by simp
    with assms(1) show ?thesis by simp
  next
    case 2
    from f show ?thesis unfolding 2 by (simp add: serial_def busy_simps)
  qed
qed

lemma serial_Shutdown:
  assumes "serial p" and "step p Shutdown = Some p'"
  shows "serial p'"
proof -
  from step_Shutdown [OF assms(2)] have l: "loop p = Select" "errors_closed p"
    and p': "p' = p\<lparr>noticeBuffer := (case noticeBuffer p of [] \<Rightarrow> [] | n # rest \<Rightarrow> rest),
                     noticeBuffer_closed := True, loop := Release\<rparr>"
    by simp_all
  from assms(1) l have w: "worker p = Exited" unfolding serial_def by blast
  with assms(1) have "requests p = length (statuses p)"
    unfolding serial_def using busy_simps(5) by metis
  with w show ?thesis unfolding p' by (simp add: serial_def busy_simps)
qed

lemma serial_Unblock:
  assumes "serial p" and "step p Unblock = Some p'"
  shows "serial p'"
proof -
  from step_Unblock [OF assms(2)] have l: "loop p = Release"
    and p': "p' = p\<lparr>loop := Returned, stop := Got None\<rparr>"
    by simp_all
  from assms(1) l have w: "worker p = Exited" unfolding serial_def by blast
  with assms(1) have "requests p = length (statuses p)"
    unfolding serial_def using busy_simps(5) by metis
  with w show ?thesis unfolding p' by (simp add: serial_def busy_simps)
qed

lemma serial_CallStop:
  assumes "serial p" and "step p CallStop = Some p'"
  shows "serial p'"
proof -
  from step_CallStop [OF assms(2)] have p': "p' = p\<lparr>stop := Requesting\<rparr>" by simp
  have "serial p' = serial p" unfolding p' serial_def by simp
  with assms(1) show ?thesis by simp
qed

lemma serial_Closing:
  assumes "serial p" and "step p Closing = Some p'"
  shows "serial p'"
proof -
  from step_Closing [OF assms(2)] consider
    "p' = p\<lparr>returning := True, stop := Waiting, crashed := Some CloseOfClosedChannel\<rparr>"
    | "p' = p\<lparr>returning := True, stop := Waiting, ncc_closed := True\<rparr>"
    by blast
  then have "serial p' = serial p"
    by cases (simp_all add: serial_def)
  with assms(1) show ?thesis by simp
qed

lemma serial_StopReturn:
  assumes "serial p" and "step p StopReturn = Some p'"
  shows "serial p'"
proof -
  from step_StopReturn [OF assms(2)] consider
    "p' = p\<lparr>crashed := Some FatalExit\<rparr>"
    | "p' = p\<lparr>notices_closed := True, stop := Stopped None\<rparr>"
    by blast
  then have "serial p' = serial p"
    by cases (simp_all add: serial_def)
  with assms(1) show ?thesis by simp
qed

lemma serial_step:
  assumes "serial p" and "step p a = Some p'"
  shows "serial p'"
proof (cases a)
  case Tick
  with assms show ?thesis by (simp only: serial_Tick)
next
  case Hand
  with assms show ?thesis by (simp only: serial_Hand)
next
  case (Scan tree order now)
  with assms show ?thesis by (simp only: serial_Scan)
next
  case Emit
  with assms show ?thesis by (simp only: serial_Emit)
next
  case Install
  with assms show ?thesis by (simp only: serial_Install)
next
  case Status
  with assms show ?thesis by (simp only: serial_Status)
next
  case Drain
  with assms show ?thesis by (simp only: serial_Drain)
next
  case CallStop
  with assms show ?thesis by (simp only: serial_CallStop)
next
  case Closing
  with assms show ?thesis by (simp only: serial_Closing)
next
  case WorkerExit
  with assms show ?thesis by (simp only: serial_WorkerExit)
next
  case Shutdown
  with assms show ?thesis by (simp only: serial_Shutdown)
next
  case Unblock
  with assms show ?thesis by (simp only: serial_Unblock)
next
  case StopReturn
  with assms show ?thesis by (simp only: serial_StopReturn)
qed

lemma run_invariant:
  assumes "\<And>p a p'. P p \<Longrightarrow> step p a = Some p' \<Longrightarrow> P p'"
  shows "P p \<Longrightarrow> run p as = Some p' \<Longrightarrow> P p'"
proof (induction as arbitrary: p)
  case Nil
  then show ?case by simp
next
  case (Cons a as)
  from Cons.prems(2) obtain q where q: "step p a = Some q" and r: "run q as = Some p'"
    by (auto split: option.splits)
  from Cons.IH [OF assms [OF Cons.prems(1) q] r] show ?case .
qed

lemma released_Start: "released (Start sc evs)"
  by (simp add: released_def Start_def)

lemma released_step:
  assumes "released p" and "step p a = Some p'"
  shows "released p'"
proof (cases a)
  case Tick
  with assms(2) have "step p Tick = Some p'" by simp
  from step_Tick [OF this] assms(1) show ?thesis
    by (auto simp: released_def split: stop_at.splits)
next
  case Hand
  with assms(2) have "step p Hand = Some p'" by simp
  from step_Hand [OF this] assms(1) show ?thesis
    by (auto simp: released_def split: stop_at.splits)
next
  case (Scan tree order now)
  with assms(2) have "step p (Scan tree order now) = Some p'" by simp
  from step_Scan [OF this] assms(1) show ?thesis
    by (auto simp: released_def split: stop_at.splits)
next
  case Emit
  with assms(2) have "step p Emit = Some p'" by simp
  from step_Emit [OF this] assms(1) show ?thesis
    by (auto simp: released_def split: stop_at.splits)
next
  case Install
  with assms(2) have "step p Install = Some p'" by simp
  from step_Install [OF this] assms(1) show ?thesis
    by (auto simp: released_def split: stop_at.splits)
next
  case Status
  with assms(2) have "step p Status = Some p'" by simp
  from step_Status [OF this] assms(1) show ?thesis
    by (auto simp: released_def split: stop_at.splits)
next
  case Drain
  with assms(2) have "step p Drain = Some p'" by simp
  from step_Drain [OF this] assms(1) show ?thesis
    by (auto simp: released_def split: stop_at.splits)
next
  case CallStop
  with assms(2) have "step p CallStop = Some p'" by simp
  from step_CallStop [OF this] assms(1) show ?thesis
    by (auto simp: released_def split: stop_at.splits)
next
  case Closing
  with assms(2) have "step p Closing = Some p'" by simp
  from step_Closing [OF this] assms(1) show ?thesis
    by (auto simp: released_def split: stop_at.splits)
next
  case WorkerExit
  with assms(2) have "step p WorkerExit = Some p'" by simp
  from step_WorkerExit [OF this] assms(1) show ?thesis
    by (auto simp: released_def split: stop_at.splits)
next
  case Shutdown
  with assms(2) have "step p Shutdown = Some p'" by simp
  from step_Shutdown [OF this] assms(1) show ?thesis
    by (auto simp: released_def split: stop_at.splits)
next
  case Unblock
  with assms(2) have "step p Unblock = Some p'" by simp
  from step_Unblock [OF this] assms(1) show ?thesis
    by (auto simp: released_def split: stop_at.splits)
next
  case StopReturn
  with assms(2) have "step p StopReturn = Some p'" by simp
  from step_StopReturn [OF this] assms(1) show ?thesis
    by (auto simp: released_def split: stop_at.splits)
qed

text \<open>
  Claim C5. In every state that the pipeline reaches, the requests the worker has taken
  are the statuses it has reported or one more. The loop is at \<^verbatim>\<open>ncc<-noticeBuffer\<close> only
  when every request taken has been reported, and the timer is nil then; the timer is set
  only when every request has been reported; while one is outstanding the timer is nil.
  The step that takes the status sets the timer again.
\<close>

theorem scan_cycles_serialized:
  assumes "run (Start sc evs) as = Some p"
  shows "length (statuses p) \<le> requests p \<and> requests p \<le> Suc (length (statuses p))
     \<and> (loop p = SendRequest \<longrightarrow> requests p = length (statuses p) \<and> timeTick p = NoTimer)
     \<and> (timeTick p \<noteq> NoTimer \<longrightarrow> requests p = length (statuses p))
     \<and> (requests p = Suc (length (statuses p)) \<longrightarrow> timeTick p = NoTimer \<and> loop p \<noteq> SendRequest)
     \<and> (\<forall>p'. step p Status = Some p' \<longrightarrow>
            timeTick p' \<noteq> NoTimer \<and> requests p' = length (statuses p'))"
proof -
  have s: "serial p"
    using serial_step serial_Start assms by (rule run_invariant)
  then have a: "length (statuses p) \<le> requests p \<and> requests p \<le> Suc (length (statuses p))"
    by (cases "busy (worker p)") (simp_all add: serial_def)
  from s have b: "loop p = SendRequest \<longrightarrow> requests p = length (statuses p) \<and> timeTick p = NoTimer"
    by (cases "busy (worker p)") (auto simp: serial_def)
  from s have c: "timeTick p \<noteq> NoTimer \<longrightarrow> requests p = length (statuses p)"
    by (cases "busy (worker p)") (auto simp: serial_def)
  from s have d: "requests p = Suc (length (statuses p)) \<longrightarrow> timeTick p = NoTimer \<and> loop p \<noteq> SendRequest"
    by (cases "busy (worker p)") (auto simp: serial_def)
  have e: "timeTick p' \<noteq> NoTimer \<and> requests p' = length (statuses p')"
    if "step p Status = Some p'" for p'
  proof -
    from that obtain err where w: "worker p = Report err"
      and p': "p' = p\<lparr>worker := Receive, statuses := statuses p @ [err],
                        timeTick := (if err \<noteq> None then Cooldown else Ticking)\<rparr>"
      by (auto split: if_splits worker_at.splits)
    from s w have "requests p = Suc (length (statuses p))"
      by (simp add: serial_def busy_simps)
    with p' show ?thesis by simp
  qed
  from a b c d e show ?thesis by blast
qed

text \<open>
  Claim C4 as the code has it. When \<^verbatim>\<open>Stop\<close> has returned, the loop has returned, the worker
  has left its loop, both notice channels are closed, and the value returned is nil,
  whatever the last cycle reported.
\<close>

theorem Stop_returns_nil:
  assumes "run (Start sc evs) as = Some p" and "stop p = Stopped r"
  shows "r = None \<and> loop p = Returned \<and> worker p = Exited
     \<and> noticeBuffer_closed p \<and> notices_closed p"
proof -
  have "released p"
    using released_step released_Start assms(1) by (rule run_invariant)
  with assms(2) show ?thesis
    by (simp add: released_def)
qed

text \<open>
  Claim C5 on a run of one cycle up to the report of its status: one request is
  outstanding and the timer case cannot be taken.
\<close>

theorem scan_cycles_serialized_witness:
  "run (Start \<lparr>address = ''/srv'', pattern = [], lastCheck = None\<rparr> [FileCreate])
     [Tick, Hand,
      Scan [(''/srv/x'', Some \<lparr>IsDir = False, ModTime = 1, Size = 10\<rparr>, None)] [] int,
      Install]
   = Some \<lparr>events = [FileCreate], loop = Select, timeTick = NoTimer, returning = False,
      noticeBuffer = [], noticeBuffer_closed = False, ncc_closed = False,
      errors_closed = False, notices = [], notices_closed = False,
      worker = Report None,
      scanner = \<lparr>address = ''/srv'', pattern = [],
        lastCheck = Some [(''/srv/x'', \<lparr>IsDir = False, ModTime = 1, Size = 10\<rparr>)]\<rparr>,
      stop = NotCalled, crashed = None, requests = 1, statuses = []\<rparr>
   \<and> step \<lparr>events = [FileCreate], loop = Select, timeTick = NoTimer, returning = False,
      noticeBuffer = [], noticeBuffer_closed = False, ncc_closed = False,
      errors_closed = False, notices = [], notices_closed = False,
      worker = Report None,
      scanner = \<lparr>address = ''/srv'', pattern = [],
        lastCheck = Some [(''/srv/x'', \<lparr>IsDir = False, ModTime = 1, Size = 10\<rparr>)]\<rparr>,
      stop = NotCalled, crashed = None, requests = 1, statuses = []\<rparr> Tick = None"
proof -
  let ?p = "\<lparr>events = [FileCreate], loop = Select, timeTick = NoTimer, returning = False,
      noticeBuffer = [], noticeBuffer_closed = False, ncc_closed = False,
      errors_closed = False, notices = [], notices_closed = False,
      worker = Report None,
      scanner = \<lparr>address = ''/srv'', pattern = [],
        lastCheck = Some [(''/srv/x'', \<lparr>IsDir = False, ModTime = 1, Size = 10\<rparr>)]\<rparr>,
      stop = NotCalled, crashed = None, requests = 1, statuses = []\<rparr>"
  have h: "run (Start \<lparr>address = ''/srv'', pattern = [], lastCheck = None\<rparr> [FileCreate])
     [Tick, Hand,
      Scan [(''/srv/x'', Some \<lparr>IsDir = False, ModTime = 1, Size = 10\<rparr>, None)] [] int,
      Install] = Some ?p"
    by (simp add: Start_def range_of_def scan_def walkFn_def lookup_def len_def send_def)
  from scan_cycles_serialized [OF h]
  have "requests ?p = Suc (length (statuses ?p)) \<longrightarrow> timeTick ?p = NoTimer" by blast
  then have "step ?p Tick = None" by simp
  with h show ?thesis by simp
qed

text \<open>
  Claim C4 says that \<^verbatim>\<open>Stop\<close> returns an error exactly when the worker reported one in its
  last cycle. The loop sends \<^verbatim>\<open>returning <- nil\<close>. In this run the only cycle fails on
  reading \<^verbatim>\<open>/srv\<close>, its status is received, and \<^verbatim>\<open>Stop\<close> then returns nil.
\<close>

theorem Stop_returns_nil_after_failed_scan_counterexample:
  "run (Start \<lparr>address = ''/srv'', pattern = [], lastCheck = None\<rparr> [FileCreate])
     [Tick, Hand,
      Scan [(''/srv'', Some \<lparr>IsDir = True, ModTime = 5, Size = 0\<rparr>, Some ''permission denied'')] [] int,
      Install, Status, CallStop, Closing, WorkerExit, Shutdown, Unblock, StopReturn]
   = Some \<lparr>events = [FileCreate], loop = Returned, timeTick = Cooldown, returning = True,
      noticeBuffer = [], noticeBuffer_closed = True, ncc_closed = True,
      errors_closed = True, notices = [], notices_closed = True,
      worker = Exited,
      scanner = \<lparr>address = ''/srv'', pattern = [], lastCheck = Some []\<rparr>,
      stop = Stopped None, crashed = None, requests = 1,
      statuses = [Some ''permission denied'']\<rparr>"
  by (simp add: Start_def range_of_def scan_def walkFn_def lookup_def len_def send_def)

text \<open>Claim C4 as the code has it, on a run where \<^verbatim>\<open>Stop\<close> is called during a cycle.\<close>

theorem Stop_returns_nil_witness:
  "run (Start \<lparr>address = ''/srv'', pattern = [], lastCheck = None\<rparr> [FileCreate])
     [Tick, Hand,
      Scan [(''/srv/x'', Some \<lparr>IsDir = False, ModTime = 1, Size = 10\<rparr>, None)] [] int,
      Install, CallStop, Status, Closing, WorkerExit, Shutdown, Unblock, StopReturn]
   = Some \<lparr>events = [FileCreate], loop = Returned, timeTick = Ticking, returning = True,
      noticeBuffer = [], noticeBuffer_closed = True, ncc_closed = True,
      errors_closed = True, notices = [], notices_closed = True,
      worker = Exited,
      scanner = \<lparr>address = ''/srv'', pattern = [],
        lastCheck = Some [(''/srv/x'', \<lparr>IsDir = False, ModTime = 1, Size = 10\<rparr>)]\<rparr>,
      stop = Stopped None, crashed = None, requests = 1, statuses = [None]\<rparr>"
proof -
  obtain p where h1: "run (Start \<lparr>address = ''/srv'', pattern = [], lastCheck = None\<rparr> [FileCreate])
     [Tick, Hand,
      Scan [(''/srv/x'', Some \<lparr>IsDir = False, ModTime = 1, Size = 10\<rparr>, None)] [] int,
      Install, CallStop, Status, Closing, WorkerExit, Shutdown, Unblock, StopReturn] = Some p"
    and p: "p = \<lparr>events = [FileCreate], loop = Returned, timeTick = Ticking, returning = True,
      noticeBuffer = [], noticeBuffer_closed = True, ncc_closed = True,
      errors_closed = True, notices = [], notices_closed = True,
      worker = Exited,
      scanner = \<lparr>address = ''/srv'', pattern = [],
        lastCheck = Some [(''/srv/x'', \<lparr>IsDir = False, ModTime = 1, Size = 10\<rparr>)]\<rparr>,
      stop = Stopped None, crashed = None, requests = 1, statuses = [None]\<rparr>"
    by (simp add: Start_def range_of_def scan_def walkFn_def lookup_def len_def send_def)
  have h2: "stop p = Stopped None" by (simp add: p)
  from Stop_returns_nil [OF h1 h2] h1 p show ?thesis by simp
qed

text \<open>
  A tick taken after \<^verbatim>\<open>close(ncc)\<close> and before the closed \<^verbatim>\<open>errorCheck\<close> is seen makes the
  loop send on the closed channel: the program panics and \<^verbatim>\<open>Stop\<close> does not return.
\<close>

lemma tick_after_close_panics:
  "map_option (\<lambda>p. (crashed p, stop p))
     (run (Start \<lparr>address = ''/srv'', pattern = [], lastCheck = None\<rparr> [FileCreate])
        [CallStop, Closing, Tick, Hand])
   = Some (Some SendOnClosedChannel, Waiting)"
  by (simp add: Start_def)

end
